theory Spec2Isabelle
  imports Complex_Main "HOL-Library.AList" "HOL-Library.Word"
begin

section \<open>The notebook\<close>

subsection \<open>Data frames\<close>

text \<open>
  The notebook \<^verbatim>\<open>Feature Matrix with Dask EntitySet.ipynb\<close> reads eight CSV files
  into Dask data frames, cleans them and hands seven of them to the entity set.

  A Dask data frame is a sequence of partitions, and every operation the notebook uses
  works partition by partition. A column is modelled as the list of its chunks, one per
  partition, and a chunk is a typed array as pandas holds it: int64, float64, bool or
  object. A data frame is an ordered association list from column name to column, and
  \<^verbatim>\<open>df[name]\<close> is \<open>map_of df name\<close>.

  A float64 cell is a finite number, the missing value \<^verbatim>\<open>np.nan\<close>, or an infinity
  with its sign. The cells of an object chunk are Python values.
\<close>

datatype float64 = Num rat | NaN | Infinity bool

datatype pyobj = PyInt int | PyFloat float64 | PyBool bool | PyStr string

datatype chunk =
  Int64 "64 word list" | Float64 "float64 list" | Bool "bool list" | Object "pyobj list"

type_synonym column = "chunk list"

type_synonym dataframe = "(string \<times> column) list"

datatype error =
  KeyError string | ValueError string | NameError string | OverflowError string
  | TimeoutError string

definition columns :: "dataframe \<Rightarrow> string list" where
  "columns df = map fst df"

text \<open>The cells of a chunk as Python values, as \<^verbatim>\<open>tolist()\<close> gives them.\<close>

fun tolist :: "chunk \<Rightarrow> pyobj list" where
  "tolist (Int64 ws) = map (\<lambda>w. PyInt (sint w)) ws"
| "tolist (Float64 fs) = map PyFloat fs"
| "tolist (Bool bs) = map PyBool bs"
| "tolist (Object os) = os"

fun is_int64 :: "chunk \<Rightarrow> bool" where
  "is_int64 (Int64 ws) = True"
| "is_int64 (Float64 fs) = False"
| "is_int64 (Bool bs) = False"
| "is_int64 (Object os) = False"

text \<open>The number of rows of each partition, read off the first column.\<close>

definition shape :: "dataframe \<Rightarrow> nat list" where
  "shape df = (case df of [] \<Rightarrow> [] | (_, col) # _ \<Rightarrow> map (\<lambda>ch. length (tolist ch)) col)"

definition nan_column :: "nat list \<Rightarrow> column" where
  "nan_column ns = map (\<lambda>n. Float64 (replicate n NaN)) ns"

subsection \<open>Cell 10: reading and replacing the anomalous value\<close>

text \<open>
  \<^verbatim>\<open>df.replace({365243: np.nan})\<close> replaces, in every column, each value that equals
  365243 by the missing value. The integer equals the int64 \<open>365243\<close> and the float
  \<open>365243.0\<close>; it equals no string and no boolean. The missing value is a float: an
  int64 chunk that holds 365243 comes back as a float64 chunk, every other cell of it
  converted to the nearest float64, and an int64 chunk that does not hold it comes back
  unchanged.
\<close>

definition sentinel :: int where
  "sentinel = 365243"

function bit_length :: "int \<Rightarrow> nat" where
  "bit_length n = (if n \<le> 0 then 0 else Suc (bit_length (n div 2)))"
  by pat_completeness auto
termination
  by (relation "measure nat") auto

declare bit_length.simps [simp del]

text \<open>
  The float64 nearest to an integer: the integer itself up to 53 bits, beyond that the
  nearest multiple of the spacing, a tie going to the even significand.
\<close>

definition float64_of_int :: "int \<Rightarrow> rat" where
  "float64_of_int i =
     (let n = \<bar>i\<bar>;
          k = bit_length n - 53;
          q = n div 2 ^ k;
          rest = n mod 2 ^ k;
          q' = (if 2 ^ k < 2 * rest \<or> (2 * rest = 2 ^ k \<and> odd q) then q + 1 else q)
      in of_int (sgn i * (q' * 2 ^ k)))"

fun equals_int :: "int \<Rightarrow> pyobj \<Rightarrow> bool" where
  "equals_int v (PyInt i) = (i = v)"
| "equals_int v (PyFloat (Num r)) = (r = of_int v)"
| "equals_int v (PyFloat NaN) = False"
| "equals_int v (PyFloat (Infinity s)) = False"
| "equals_int v (PyBool b) = False"
| "equals_int v (PyStr s) = False"

fun replace_nan :: "int \<Rightarrow> chunk \<Rightarrow> chunk" where
  "replace_nan v (Int64 ws) =
     (if list_ex (\<lambda>w. sint w = v) ws
      then Float64 (map (\<lambda>w. if sint w = v then NaN else Num (float64_of_int (sint w))) ws)
      else Int64 ws)"
| "replace_nan v (Float64 fs) = Float64 (map (\<lambda>f. if f = Num (of_int v) then NaN else f) fs)"
| "replace_nan v (Bool bs) = Bool bs"
| "replace_nan v (Object os) = Object (map (\<lambda>x. if equals_int v x then PyFloat NaN else x) os)"

definition replace_df :: "int \<Rightarrow> dataframe \<Rightarrow> dataframe" where
  "replace_df to_replace df = map (\<lambda>(name, col). (name, map (replace_nan to_replace) col)) df"

definition replace_sentinel :: "dataframe \<Rightarrow> dataframe" where
  "replace_sentinel df = replace_df sentinel df"

text \<open>
  The eight frames that \<^verbatim>\<open>dd.read_csv\<close> returns are the input of the model; the
  file access itself belongs to the ingestion collaborator.
\<close>

record csv_frames =
  app_train :: dataframe
  app_test :: dataframe
  bureau :: dataframe
  bureau_balance :: dataframe
  cash :: dataframe
  credit :: dataframe
  previous :: dataframe
  installments :: dataframe

definition frames :: "csv_frames \<Rightarrow> dataframe list" where
  "frames r = [app_train r, app_test r, bureau r, bureau_balance r, cash r, credit r,
               previous r, installments r]"

definition ingest :: "csv_frames \<Rightarrow> csv_frames" where
  "ingest r =
     \<lparr> app_train = replace_sentinel (app_train r),
       app_test = replace_sentinel (app_test r),
       bureau = replace_sentinel (bureau r),
       bureau_balance = replace_sentinel (bureau_balance r),
       cash = replace_sentinel (cash r),
       credit = replace_sentinel (credit r),
       previous = replace_sentinel (previous r),
       installments = replace_sentinel (installments r) \<rparr>"

definition is_sentinel :: "pyobj \<Rightarrow> bool" where
  "is_sentinel x = equals_int sentinel x"

definition column_free :: "column \<Rightarrow> bool" where
  "column_free col = list_all (\<lambda>ch. list_all (\<lambda>x. \<not> is_sentinel x) (tolist ch)) col"

definition sentinel_free :: "dataframe \<Rightarrow> bool" where
  "sentinel_free df = list_all (\<lambda>(name, col). column_free col) df"

text \<open>An integer cell seen as the float64 it is converted to.\<close>

fun as_float64 :: "pyobj \<Rightarrow> pyobj" where
  "as_float64 (PyInt i) = PyFloat (Num (float64_of_int i))"
| "as_float64 x = x"

subsection \<open>Cell 12: cleanup\<close>

text \<open>
  \<^verbatim>\<open>df[name] = col\<close> replaces the column in place when the name is present and
  adds it as the last column otherwise; \<^verbatim>\<open>df[names]\<close> selects columns and raises
  \<^verbatim>\<open>KeyError\<close> for a name that is absent.
\<close>

definition setitem :: "dataframe \<Rightarrow> string \<Rightarrow> column \<Rightarrow> dataframe" where
  "setitem df name col = AList.update name col df"

fun select_columns :: "dataframe \<Rightarrow> string list \<Rightarrow> error + dataframe" where
  "select_columns df [] = Inr []"
| "select_columns df (name # names) =
     (case map_of df name of
        None \<Rightarrow> Inl (KeyError name)
      | Some col \<Rightarrow>
          (case select_columns df names of
             Inl e \<Rightarrow> Inl e
           | Inr rest \<Rightarrow> Inr ((name, col) # rest)))"

text \<open>
  \<^verbatim>\<open>a.append(b)\<close> puts the partitions of \<open>b\<close> after the partitions of \<open>a\<close>,
  aligning the columns by name; a column that one of the frames lacks is filled with the
  missing value there.
\<close>

definition append_df :: "dataframe \<Rightarrow> dataframe \<Rightarrow> dataframe" where
  "append_df a b =
     map (\<lambda>(name, col).
            (name, col @ (case map_of b name of
                            Some col' \<Rightarrow> col'
                          | None \<Rightarrow> nan_column (shape b)))) a
     @ map (\<lambda>(name, col'). (name, nan_column (shape a) @ col'))
         (filter (\<lambda>(name, col'). map_of a name = None) b)"

text \<open>
  \<^verbatim>\<open>fillna(0)\<close> puts 0 where a value is missing: \<open>0.0\<close> in a float64 chunk, the
  Python integer \<open>0\<close> in an object chunk. An int64 or bool chunk has no missing value.
\<close>

fun fillna :: "int \<Rightarrow> chunk \<Rightarrow> chunk" where
  "fillna v (Int64 ws) = Int64 ws"
| "fillna v (Float64 fs) = Float64 (map (\<lambda>f. if f = NaN then Num (of_int v) else f) fs)"
| "fillna v (Bool bs) = Bool bs"
| "fillna v (Object os) = Object (map (\<lambda>x. if x = PyFloat NaN then PyInt v else x) os)"

text \<open>
  \<^verbatim>\<open>astype(np.int64)\<close>. A float64 chunk with a missing or infinite value is refused;
  a finite float is truncated toward zero, and one outside the int64 range comes out as
  \<open>- 2^63\<close> (the x86-64 conversion). A boolean becomes 0 or 1. The cells of an object
  chunk go through Python's \<^verbatim>\<open>int()\<close> and must fit a C long. What \<^verbatim>\<open>int()\<close>
  makes of a string is not code of the notebook: it is a parameter.
\<close>

record casts =
  str_to_int :: "string \<Rightarrow> int option"

definition trunc :: "rat \<Rightarrow> int" where
  "trunc r = (if 0 \<le> r then \<lfloor>r\<rfloor> else \<lceil>r\<rceil>)"

definition int64_range :: "int \<Rightarrow> bool" where
  "int64_range i = (- (2 ^ 63) \<le> i \<and> i < 2 ^ 63)"

definition float_to_int64 :: "rat \<Rightarrow> 64 word" where
  "float_to_int64 r = (if int64_range (trunc r) then word_of_int (trunc r) else word_of_int (- (2 ^ 63)))"

fun cast_float :: "float64 \<Rightarrow> error + 64 word" where
  "cast_float (Num r) = Inr (float_to_int64 r)"
| "cast_float NaN = Inl (ValueError ''Cannot convert non-finite values (NA or inf) to integer'')"
| "cast_float (Infinity s) = Inl (ValueError ''Cannot convert non-finite values (NA or inf) to integer'')"

definition to_c_long :: "int \<Rightarrow> error + 64 word" where
  "to_c_long i =
     (if int64_range i then Inr (word_of_int i)
      else Inl (OverflowError ''Python int too large to convert to C long''))"

fun cast_object :: "casts \<Rightarrow> pyobj \<Rightarrow> error + 64 word" where
  "cast_object c (PyInt i) = to_c_long i"
| "cast_object c (PyFloat (Num r)) = to_c_long (trunc r)"
| "cast_object c (PyFloat NaN) = Inl (ValueError ''cannot convert float NaN to integer'')"
| "cast_object c (PyFloat (Infinity s)) = Inl (OverflowError ''cannot convert float infinity to integer'')"
| "cast_object c (PyBool b) = Inr (if b then 1 else 0)"
| "cast_object c (PyStr s) =
     (case str_to_int c s of
        None \<Rightarrow> Inl (ValueError s)
      | Some i \<Rightarrow> to_c_long i)"

fun traverse :: "('a \<Rightarrow> error + 'b) \<Rightarrow> 'a list \<Rightarrow> error + 'b list" where
  "traverse f [] = Inr []"
| "traverse f (x # xs) =
     (case f x of
        Inl e \<Rightarrow> Inl e
      | Inr y \<Rightarrow>
          (case traverse f xs of
             Inl e \<Rightarrow> Inl e
           | Inr ys \<Rightarrow> Inr (y # ys)))"

fun astype_int64 :: "casts \<Rightarrow> chunk \<Rightarrow> error + chunk" where
  "astype_int64 c (Int64 ws) = Inr (Int64 ws)"
| "astype_int64 c (Float64 fs) =
     (case traverse cast_float fs of Inl e \<Rightarrow> Inl e | Inr ws \<Rightarrow> Inr (Int64 ws))"
| "astype_int64 c (Bool bs) = Inr (Int64 (map (\<lambda>b. if b then 1 else 0) bs))"
| "astype_int64 c (Object os) =
     (case traverse (cast_object c) os of Inl e \<Rightarrow> Inl e | Inr ws \<Rightarrow> Inr (Int64 ws))"

text \<open>
  \<^verbatim>\<open>df.drop(columns=labels)\<close> raises \<^verbatim>\<open>KeyError\<close> when a label is not a column
  and otherwise returns the frame without the columns of these names.
\<close>

definition drop_columns :: "dataframe \<Rightarrow> string list \<Rightarrow> error + dataframe" where
  "drop_columns df labels =
     (case filter (\<lambda>l. map_of df l = None) labels of
        [] \<Rightarrow> Inr (filter (\<lambda>(name, col). name \<notin> set labels) df)
      | l # _ \<Rightarrow> Inl (KeyError l))"

text \<open>
  The notebook's global names that hold data frames, after the first two statements of
  the cell: \<^verbatim>\<open>app_test['TARGET'] = np.nan\<close> and
  \<^verbatim>\<open>app = app_train.append(app_test[app_train.columns])\<close>.
\<close>

type_synonym env = "(string \<times> dataframe) list"

definition assemble :: "csv_frames \<Rightarrow> error + env" where
  "assemble r =
     (let app_test' = setitem (app_test r) ''TARGET'' (nan_column (shape (app_test r)))
      in case select_columns app_test' (columns (app_train r)) of
           Inl e \<Rightarrow> Inl e
         | Inr selected \<Rightarrow>
             Inr [(''app'', append_df (app_train r) selected),
                  (''bureau'', bureau r),
                  (''bureau_balance'', bureau_balance r),
                  (''cash'', cash r),
                  (''credit'', credit r),
                  (''previous'', previous r),
                  (''installments'', installments r)])"

definition index_names :: "string list" where
  "index_names = [''SK_ID_CURR'', ''SK_ID_PREV'', ''SK_ID_BUREAU'']"

definition dataset_names :: "string list" where
  "dataset_names = [''app'', ''bureau'', ''bureau_balance'', ''cash'', ''credit'',
                    ''previous'', ''installments'']"

text \<open>
  The body of the double loop,
  \<^verbatim>\<open>if index in list(dataset.columns): dataset[index] = dataset[index].fillna(0).astype(np.int64)\<close>,
  for the frame bound to the name \<open>var\<close>. The assignment changes that frame in place.
\<close>

definition coerce_index :: "casts \<Rightarrow> string \<Rightarrow> string \<Rightarrow> env \<Rightarrow> error + env" where
  "coerce_index c index var env =
     (case map_of env var of
        None \<Rightarrow> Inl (NameError var)
      | Some dataset \<Rightarrow>
          (case map_of dataset index of
             None \<Rightarrow> Inr env
           | Some col \<Rightarrow>
               (case traverse (astype_int64 c) (map (fillna 0) col) of
                  Inl e \<Rightarrow> Inl e
                | Inr col' \<Rightarrow> Inr (AList.update var (setitem dataset index col') env))))"

fun for_datasets :: "casts \<Rightarrow> string \<Rightarrow> string list \<Rightarrow> env \<Rightarrow> error + env" where
  "for_datasets c index [] env = Inr env"
| "for_datasets c index (var # vars) env =
     (case coerce_index c index var env of
        Inl e \<Rightarrow> Inl e
      | Inr env' \<Rightarrow> for_datasets c index vars env')"

fun for_indexes :: "casts \<Rightarrow> string list \<Rightarrow> string list \<Rightarrow> env \<Rightarrow> error + env" where
  "for_indexes c [] vars env = Inr env"
| "for_indexes c (index # indexes) vars env =
     (case for_datasets c index vars env of
        Inl e \<Rightarrow> Inl e
      | Inr env' \<Rightarrow> for_indexes c indexes vars env')"

text \<open>\<^verbatim>\<open>var = var.drop(columns=labels)\<close>\<close>

definition drop_in :: "string \<Rightarrow> string list \<Rightarrow> env \<Rightarrow> error + env" where
  "drop_in var labels env =
     (case map_of env var of
        None \<Rightarrow> Inl (NameError var)
      | Some df \<Rightarrow>
          (case drop_columns df labels of
             Inl e \<Rightarrow> Inl e
           | Inr df' \<Rightarrow> Inr (AList.update var df' env)))"

definition drop_curr :: "env \<Rightarrow> error + env" where
  "drop_curr env =
     (case drop_in ''installments'' [''SK_ID_CURR''] env of
        Inl e \<Rightarrow> Inl e
      | Inr env1 \<Rightarrow>
          (case drop_in ''credit'' [''SK_ID_CURR''] env1 of
             Inl e \<Rightarrow> Inl e
           | Inr env2 \<Rightarrow> drop_in ''cash'' [''SK_ID_CURR''] env2))"

definition cleanup :: "casts \<Rightarrow> csv_frames \<Rightarrow> error + env" where
  "cleanup c r =
     (case assemble r of
        Inl e \<Rightarrow> Inl e
      | Inr env \<Rightarrow>
          (case for_indexes c index_names dataset_names env of
             Inl e \<Rightarrow> Inl e
           | Inr env' \<Rightarrow> drop_curr env'))"

text \<open>
  What \<^verbatim>\<open>fillna(0).astype(np.int64)\<close> makes of a column when it succeeds, and
  relations that describe the passes of the loop: a column is left alone or, when its
  name is among \<open>K\<close>, coerced.
\<close>

definition coerced :: "casts \<Rightarrow> column \<Rightarrow> column \<Rightarrow> bool" where
  "coerced c col col' = (traverse (astype_int64 c) (map (fillna 0) col) = Inr col')"

definition column_step :: "casts \<Rightarrow> bool \<Rightarrow> column \<Rightarrow> column \<Rightarrow> bool" where
  "column_step c key col col' = (col' = col \<or> (key \<and> coerced c col col'))"

definition frame_step :: "casts \<Rightarrow> string set \<Rightarrow> dataframe \<Rightarrow> dataframe \<Rightarrow> bool" where
  "frame_step c K df df' =
     (\<forall>name. rel_option (\<lambda>col col'. col' = col \<or> (name \<in> K \<and> coerced c col col'))
               (map_of df name) (map_of df' name))"

definition env_step :: "casts \<Rightarrow> string set \<Rightarrow> env \<Rightarrow> env \<Rightarrow> bool" where
  "env_step c K env env' =
     (\<forall>var. rel_option (frame_step c K) (map_of env var) (map_of env' var))"

definition ints_at :: "string \<Rightarrow> string \<Rightarrow> env \<Rightarrow> bool" where
  "ints_at index var env =
     (\<forall>df col. map_of env var = Some df \<longrightarrow> map_of df index = Some col \<longrightarrow> list_all is_int64 col)"

definition subframe :: "dataframe \<Rightarrow> dataframe \<Rightarrow> bool" where
  "subframe df' df = (\<forall>name col. map_of df' name = Some col \<longrightarrow> map_of df name = Some col)"

definition drop_step :: "env \<Rightarrow> env \<Rightarrow> bool" where
  "drop_step env env' =
     (\<forall>var df'. map_of env' var = Some df' \<longrightarrow> (\<exists>df. map_of env var = Some df \<and> subframe df' df))"


text \<open>A cell that is an integer of the int64 range.\<close>

fun int64_value :: "pyobj \<Rightarrow> bool" where
  "int64_value (PyInt i) = int64_range i"
| "int64_value (PyFloat f) = False"
| "int64_value (PyBool b) = False"
| "int64_value (PyStr s) = False"

text \<open>
  The cell of a key column after the loop, \<open>y\<close>, against the cell it comes from, \<open>x\<close>:
  an integer is kept, a missing value has become 0, a finite float is truncated toward
  zero (\<open>- 2^63\<close> when that is out of range), a boolean has become 0 or 1, a string has
  gone through \<^verbatim>\<open>int()\<close>; nothing comes from an infinity.
\<close>

fun key_cell :: "casts \<Rightarrow> pyobj \<Rightarrow> pyobj \<Rightarrow> bool" where
  "key_cell c (PyInt i) y = (int64_range i \<and> y = PyInt i)"
| "key_cell c (PyFloat (Num r)) y =
     (y = PyInt (if int64_range (trunc r) then trunc r else - (2 ^ 63)))"
| "key_cell c (PyFloat NaN) y = (y = PyInt 0)"
| "key_cell c (PyFloat (Infinity s)) y = False"
| "key_cell c (PyBool b) y = (y = PyInt (if b then 1 else 0))"
| "key_cell c (PyStr s) y =
     (case str_to_int c s of
        None \<Rightarrow> False
      | Some i \<Rightarrow> int64_range i \<and> y = PyInt i)"

text \<open>
  Frames on which the cleanup cannot fail: every key column is int64, bool, or float64
  without an infinity; the test frame has every column of the training frame but
  \<^verbatim>\<open>TARGET\<close>; and the three frames that lose \<^verbatim>\<open>SK_ID_CURR\<close> have it.
\<close>

fun numeric_chunk :: "chunk \<Rightarrow> bool" where
  "numeric_chunk (Int64 ws) = True"
| "numeric_chunk (Float64 fs) = list_all (\<lambda>f. case f of Infinity s \<Rightarrow> False | _ \<Rightarrow> True) fs"
| "numeric_chunk (Bool bs) = True"
| "numeric_chunk (Object os) = False"

definition numeric_keys :: "dataframe \<Rightarrow> bool" where
  "numeric_keys df =
     list_all (\<lambda>(name, col). name \<in> set index_names \<longrightarrow> list_all numeric_chunk col) df"

definition ready :: "csv_frames \<Rightarrow> bool" where
  "ready r =
     (list_all numeric_keys (frames r)
      \<and> list_all (\<lambda>name. name = ''TARGET'' \<or> name \<in> set (columns (app_test r)))
           (columns (app_train r))
      \<and> list_all (\<lambda>df. ''SK_ID_CURR'' \<in> set (columns df)) [cash r, credit r, installments r])"

text \<open>The loop's invariant: the seven names are bound, to frames with numeric keys.\<close>

definition loop_ready :: "env \<Rightarrow> bool" where
  "loop_ready env = (map fst env = dataset_names \<and> (\<forall>(var, df) \<in> set env. numeric_keys df))"

subsection \<open>Cell 16: entities and relationships\<close>

text \<open>
  The arguments of the seven \<^verbatim>\<open>es.entity_from_dataframe\<close> calls, in the order of the
  calls, and of the six \<^verbatim>\<open>ft.Relationship\<close> objects, in the order of the list given
  to \<^verbatim>\<open>es.add_relationships\<close>. The functions themselves belong to the featuretools
  library.
\<close>

record registration =
  entity_id :: string
  dataframe_var :: string
  index_column :: string
  make_index :: bool

definition registrations :: "registration list" where
  "registrations =
     [\<lparr>entity_id = ''app'', dataframe_var = ''app'',
       index_column = ''SK_ID_CURR'', make_index = False\<rparr>,
      \<lparr>entity_id = ''bureau'', dataframe_var = ''bureau'',
       index_column = ''SK_ID_BUREAU'', make_index = False\<rparr>,
      \<lparr>entity_id = ''previous'', dataframe_var = ''previous'',
       index_column = ''SK_ID_PREV'', make_index = False\<rparr>,
      \<lparr>entity_id = ''bureau_balance'', dataframe_var = ''bureau_balance'',
       index_column = ''bureaubalance_index'', make_index = True\<rparr>,
      \<lparr>entity_id = ''cash'', dataframe_var = ''cash'',
       index_column = ''cash_index'', make_index = True\<rparr>,
      \<lparr>entity_id = ''installments'', dataframe_var = ''installments'',
       index_column = ''installments_index'', make_index = True\<rparr>,
      \<lparr>entity_id = ''credit'', dataframe_var = ''credit'',
       index_column = ''credit_index'', make_index = True\<rparr>]"

record relationship =
  parent_entity :: string
  parent_variable :: string
  child_entity :: string
  child_variable :: string

definition Relationship :: "string \<times> string \<Rightarrow> string \<times> string \<Rightarrow> relationship" where
  "Relationship p ch = \<lparr>parent_entity = fst p, parent_variable = snd p,
                         child_entity = fst ch, child_variable = snd ch\<rparr>"

definition relationships :: "relationship list" where
  "relationships =
     [Relationship (''app'', ''SK_ID_CURR'') (''bureau'', ''SK_ID_CURR''),
      Relationship (''bureau'', ''SK_ID_BUREAU'') (''bureau_balance'', ''SK_ID_BUREAU''),
      Relationship (''app'', ''SK_ID_CURR'') (''previous'', ''SK_ID_CURR''),
      Relationship (''previous'', ''SK_ID_PREV'') (''cash'', ''SK_ID_PREV''),
      Relationship (''previous'', ''SK_ID_PREV'') (''installments'', ''SK_ID_PREV''),
      Relationship (''previous'', ''SK_ID_PREV'') (''credit'', ''SK_ID_PREV'')]"

definition edges :: "relationship list \<Rightarrow> (string \<times> string) list" where
  "edges rels = map (\<lambda>g. (parent_entity g, child_entity g)) rels"

definition parents_of :: "relationship list \<Rightarrow> string \<Rightarrow> string list" where
  "parents_of rels t = map parent_entity (filter (\<lambda>g. child_entity g = t) rels)"

text \<open>
  \<open>reaches rels target n t\<close>: following parent edges from \<open>t\<close> arrives at \<open>target\<close>
  within \<open>n\<close> steps.
\<close>

fun reaches :: "relationship list \<Rightarrow> string \<Rightarrow> nat \<Rightarrow> string \<Rightarrow> bool" where
  "reaches rels target 0 t = (t = target)"
| "reaches rels target (Suc n) t =
     (t = target \<or> list_ex (\<lambda>p. reaches rels target n p) (parents_of rels t))"

text \<open>
  A tree over the entities: the edges join entities, the top entity has no parent, every
  other entity has exactly one, and every entity is connected to the top.
\<close>

definition tree_rooted_at :: "relationship list \<Rightarrow> string list \<Rightarrow> string \<Rightarrow> bool" where
  "tree_rooted_at rels entities target =
     (target \<in> set entities
      \<and> distinct entities
      \<and> list_all (\<lambda>g. parent_entity g \<in> set entities \<and> child_entity g \<in> set entities) rels
      \<and> parents_of rels target = []
      \<and> list_all (\<lambda>t. t = target \<or> length (parents_of rels t) = 1) entities
      \<and> list_all (\<lambda>t. reaches rels target (length entities) t) entities)"

subsection \<open>The cells of a run\<close>

text \<open>
  The code cells of the notebook, top to bottom. Cell 6 is
  \<^verbatim>\<open>try: client.close() except: pass\<close> followed by
  \<^verbatim>\<open>client = Client(n_workers=num_workers)\<close>; the last cell is \<^verbatim>\<open>client.close()\<close>.
  No cell catches an exception of another one: when a cell raises, the cells below it do
  not run, and the kernel process keeps its global names.
\<close>

datatype cell_id =
  Select_Version | Primitive_Dict | Imports | Start_Client | Set_Directories | Read_Csv
  | Cleanup | Variable_Types | Build_EntitySet | Cutoff_Times | Run_Dfs | Write_Csv
  | Compute | Head | Close_Client

definition notebook :: "cell_id list" where
  "notebook = [Select_Version, Primitive_Dict, Imports, Start_Client, Set_Directories,
               Read_Csv, Cleanup, Variable_Types, Build_EntitySet, Cutoff_Times, Run_Dfs,
               Write_Csv, Compute, Head, Close_Client]"


subsection \<open>Cells 6 and 27: the Dask client\<close>

text \<open>
  The kernel's state, as far as the client goes: the session the global name
  \<^verbatim>\<open>client\<close> is bound to (\<open>None\<close> while the name is undefined), the sessions whose
  worker pool is running, and the next session to be created.
\<close>

datatype outcome = Completed | Raised cell_id

record kernel =
  client :: "nat option"
  running :: "nat list"
  next_session :: nat

text \<open>
  What goes wrong in a run: \<open>raises cell\<close> tells whether the library call of the cell
  raises (reading a file, the synthesis, writing the output; for cell 6 the creation of
  the client, for the last cell its \<^verbatim>\<open>client.close()\<close>), and
  \<open>prior_close_raises\<close> whether the \<^verbatim>\<open>client.close()\<close> inside the
  \<^verbatim>\<open>try\<close> of cell 6 does.
\<close>

record faults =
  raises :: "cell_id \<Rightarrow> bool"
  prior_close_raises :: bool

text \<open>
  \<^verbatim>\<open>client.close()\<close>: a \<^verbatim>\<open>NameError\<close> while the name is unbound; a close that
  fails leaves the worker pool as it is.
\<close>

definition close :: "bool \<Rightarrow> kernel \<Rightarrow> error + kernel" where
  "close fails k =
     (case client k of
        None \<Rightarrow> Inl (NameError ''client'')
      | Some s \<Rightarrow>
          if fails then Inl (TimeoutError ''close'')
          else Inr (k\<lparr>running := removeAll s (running k)\<rparr>))"

text \<open>\<^verbatim>\<open>try: client.close() except: pass\<close>: whatever the close raises is dropped.\<close>

definition close_prior :: "faults \<Rightarrow> kernel \<Rightarrow> kernel" where
  "close_prior f k = (case close (prior_close_raises f) k of Inl e \<Rightarrow> k | Inr k' \<Rightarrow> k')"

definition new_client :: "kernel \<Rightarrow> kernel" where
  "new_client k =
     k\<lparr>client := Some (next_session k),
       running := next_session k # running k,
       next_session := Suc (next_session k)\<rparr>"

fun run_cell :: "faults \<Rightarrow> cell_id \<Rightarrow> kernel \<Rightarrow> outcome \<times> kernel" where
  "run_cell f Start_Client k =
     (let k1 = close_prior f k
      in if raises f Start_Client then (Raised Start_Client, k1) else (Completed, new_client k1))"
| "run_cell f Close_Client k =
     (case close (raises f Close_Client) k of
        Inl e \<Rightarrow> (Raised Close_Client, k)
      | Inr k' \<Rightarrow> (Completed, k'))"
| "run_cell f cell k = (if raises f cell then (Raised cell, k) else (Completed, k))"

fun run_cells :: "faults \<Rightarrow> cell_id list \<Rightarrow> kernel \<Rightarrow> outcome \<times> kernel" where
  "run_cells f [] k = (Completed, k)"
| "run_cells f (cell # cells) k =
     (case run_cell f cell k of
        (Completed, k') \<Rightarrow> run_cells f cells k'
      | (Raised c, k') \<Rightarrow> (Raised c, k'))"

definition run_all :: "faults \<Rightarrow> kernel \<Rightarrow> outcome \<times> kernel" where
  "run_all f k = run_cells f notebook k"

text \<open>Every running session is the one the name \<^verbatim>\<open>client\<close> is bound to.\<close>

definition tracked :: "kernel \<Rightarrow> bool" where
  "tracked k = (set (running k) \<subseteq> set_option (client k))"

definition fresh_kernel :: kernel where
  "fresh_kernel = \<lparr>client = None, running = [], next_session = 0\<rparr>"

definition only_raises :: "cell_id \<Rightarrow> faults" where
  "only_raises bad = \<lparr>raises = (\<lambda>cell. cell = bad), prior_close_raises = False\<rparr>"

definition never_raises :: faults where
  "never_raises = \<lparr>raises = (\<lambda>cell. False), prior_close_raises = False\<rparr>"

definition prior_close_fails :: faults where
  "prior_close_fails = \<lparr>raises = (\<lambda>cell. False), prior_close_raises = True\<rparr>"

subsection \<open>A small input\<close>

text \<open>
  Frames of one partition each, with a few rows. Among them: the anomalous value in an
  int64 and in a float64 chunk, a client whose identifier happens to be 365243, an
  identifier beyond 53 bits next to the anomalous value, float keys with a missing
  value, and a float key 365243.5. No string is read as an integer.
\<close>

definition example_casts :: casts where
  "example_casts = \<lparr> str_to_int = (\<lambda>s. None) \<rparr>"

definition example_frames :: csv_frames where
  "example_frames =
     \<lparr> app_train = [(''SK_ID_CURR'', [Int64 [1, 365243]]), (''TARGET'', [Int64 [0, 1]])],
       app_test = [(''SK_ID_CURR'', [Int64 [3]])],
       bureau = [(''SK_ID_BUREAU'', [Int64 [10, 11, 12, 13]]),
                 (''SK_ID_CURR'', [Float64 [Num 1, Num (- 5 / 2), Num 365243, NaN]]),
                 (''DAYS_CREDIT'', [Float64 [Num 365243, Num (- 7), Num (1 / 2), NaN]])],
       bureau_balance = [(''SK_ID_BUREAU'', [Int64 [10]]), (''STATUS'', [Object [PyStr ''C'']])],
       cash = [(''SK_ID_PREV'', [Int64 [5]]), (''SK_ID_CURR'', [Int64 [1]])],
       credit = [(''SK_ID_PREV'', [Float64 [Num (730487 / 2)]]), (''SK_ID_CURR'', [Int64 [1]])],
       previous = [(''SK_ID_PREV'', [Int64 [5, 6]]),
                   (''SK_ID_CURR'', [Int64 [365243, 9007199254740993]])],
       installments = [(''SK_ID_PREV'', [Int64 [5]]), (''SK_ID_CURR'', [Int64 [1]])] \<rparr>"

definition example_cleaned :: env where
  "example_cleaned =
     [(''app'', [(''SK_ID_CURR'', [Int64 [1, 0], Int64 [3]]),
                (''TARGET'', [Int64 [0, 1], Float64 [NaN]])]),
      (''bureau'', [(''SK_ID_BUREAU'', [Int64 [10, 11, 12, 13]]),
                   (''SK_ID_CURR'', [Int64 [1, - 2, 0, 0]]),
                   (''DAYS_CREDIT'', [Float64 [NaN, Num (- 7), Num (1 / 2), NaN]])]),
      (''bureau_balance'', [(''SK_ID_BUREAU'', [Int64 [10]]), (''STATUS'', [Object [PyStr ''C'']])]),
      (''cash'', [(''SK_ID_PREV'', [Int64 [5]])]),
      (''credit'', [(''SK_ID_PREV'', [Int64 [365243]])]),
      (''previous'', [(''SK_ID_PREV'', [Int64 [5, 6]]),
                     (''SK_ID_CURR'', [Int64 [0, 9007199254740992]])]),
      (''installments'', [(''SK_ID_PREV'', [Int64 [5]])])]"

section \<open>Sentinel normalization\<close>

lemma bit_length_lower: "0 < n \<Longrightarrow> 2 ^ (bit_length n - 1) \<le> n"
proof (induction n rule: bit_length.induct)
  case (1 n)
  have unfold: "bit_length n = Suc (bit_length (n div 2))"
    using "1.prems" by (simp add: bit_length.simps [of n])
  show ?case
  proof (cases "n div 2 \<le> 0")
    case True
    then have "bit_length (n div 2) = 0" by (simp add: bit_length.simps [of "n div 2"])
    with "1.prems" show ?thesis by (simp add: unfold)
  next
    case False
    then have pos: "0 < n div 2" by simp
    with "1.IH" "1.prems" have ih: "2 ^ (bit_length (n div 2) - 1) \<le> n div 2" by simp
    from pos have "bit_length (n div 2) = Suc (bit_length (n div 2) - 1)"
      by (simp add: bit_length.simps [of "n div 2"])
    then have "(2::int) ^ bit_length (n div 2) = 2 * 2 ^ (bit_length (n div 2) - 1)"
      by (metis power_Suc)
    with ih have "(2::int) ^ bit_length (n div 2) \<le> n" by linarith
    then show ?thesis by (simp add: unfold)
  qed
qed

lemma bit_length_small: "\<bar>i\<bar> < 2 ^ 53 \<Longrightarrow> bit_length \<bar>i\<bar> \<le> 53"
proof (rule ccontr)
  assume small: "\<bar>i\<bar> < 2 ^ 53" and large: "\<not> bit_length \<bar>i\<bar> \<le> 53"
  then have big: "53 \<le> bit_length \<bar>i\<bar> - 1" by simp
  have pos: "0 < \<bar>i\<bar>"
  proof (rule ccontr)
    assume "\<not> 0 < \<bar>i\<bar>"
    then have "i = 0" by simp
    then have "bit_length \<bar>i\<bar> = 0" by (simp add: bit_length.simps [of 0])
    with large show False by simp
  qed
  have "(2::int) ^ 53 \<le> 2 ^ (bit_length \<bar>i\<bar> - 1)"
    using big by (rule power_increasing) simp
  with bit_length_lower [OF pos] small show False by linarith
qed

lemma float64_of_int_exact: "\<bar>i\<bar> < 2 ^ 53 \<Longrightarrow> float64_of_int i = of_int i"
proof -
  assume "\<bar>i\<bar> < 2 ^ 53"
  then have "bit_length \<bar>i\<bar> - 53 = 0" using bit_length_small [of i] by simp
  then have "float64_of_int i = of_int (sgn i * \<bar>i\<bar>)"
    by (simp add: float64_of_int_def Let_def)
  then show ?thesis by (simp add: mult_sgn_abs)
qed

lemma float64_of_int_large:
  assumes "2 ^ 53 \<le> \<bar>i\<bar>"
  shows "2 ^ 52 \<le> \<bar>float64_of_int i\<bar>"
proof -
  define n where "n = \<bar>i\<bar>"
  define k where "k = bit_length n - 53"
  define q where "q = n div 2 ^ k"
  define q' where "q' = (if 2 ^ k < 2 * (n mod 2 ^ k) \<or> (2 * (n mod 2 ^ k) = 2 ^ k \<and> odd q) then q + 1 else q)"
  have pos: "0 < n" using assms by (simp add: n_def)
  have f: "float64_of_int i = of_int (sgn i * (q' * 2 ^ k))"
    by (simp add: float64_of_int_def Let_def n_def k_def q_def q'_def)
  have "2 ^ 52 * 2 ^ k \<le> n"
  proof (cases "bit_length n \<le> 53")
    case True
    then have "k = 0" by (simp add: k_def)
    with assms show ?thesis by (simp add: n_def)
  next
    case False
    then have "bit_length n - 1 = 52 + k" by (simp add: k_def)
    with bit_length_lower [OF pos] show ?thesis by (simp add: power_add)
  qed
  then have "(2 ^ 52 * 2 ^ k) div 2 ^ k \<le> n div 2 ^ k"
    by (rule zdiv_mono1) simp
  then have "2 ^ 52 \<le> q"
    by (simp add: q_def)
  then have q'_ge: "2 ^ 52 \<le> q'" by (simp add: q'_def)
  have "(1::int) \<le> 2 ^ k" by simp
  with q'_ge have "2 ^ 52 * 1 \<le> q' * 2 ^ k"
    by (intro mult_mono) simp_all
  moreover have "i \<noteq> 0" using assms by auto
  then have "\<bar>sgn i * (q' * 2 ^ k)\<bar> = \<bar>q' * 2 ^ k\<bar>" by (simp add: abs_mult sgn_if)
  ultimately have "2 ^ 52 \<le> \<bar>sgn i * (q' * 2 ^ k)\<bar>" by simp
  then have "(of_int (2 ^ 52) :: rat) \<le> of_int \<bar>sgn i * (q' * 2 ^ k)\<bar>"
    by (simp only: of_int_le_iff)
  then show ?thesis by (simp add: f)
qed

lemma float64_of_int_sentinel: "float64_of_int i = of_int sentinel \<longleftrightarrow> i = sentinel"
proof (cases "\<bar>i\<bar> < 2 ^ 53")
  case True
  then show ?thesis by (simp add: float64_of_int_exact)
next
  case False
  then have "2 ^ 52 \<le> \<bar>float64_of_int i\<bar>" by (intro float64_of_int_large) simp
  moreover from False have "i \<noteq> sentinel" by (auto simp: sentinel_def)
  ultimately show ?thesis by (auto simp: sentinel_def)
qed


lemma is_sentinel_simps:
  "is_sentinel (PyInt i) \<longleftrightarrow> i = sentinel"
  "is_sentinel (PyFloat f) \<longleftrightarrow> f = Num (of_int sentinel)"
  "\<not> is_sentinel (PyBool b)"
  "\<not> is_sentinel (PyStr s)"
  by (cases f; simp add: is_sentinel_def)+

lemma int64_holds_sentinel:
  "list_ex is_sentinel (map (\<lambda>w. PyInt (sint w)) ws) \<longleftrightarrow> list_ex (\<lambda>w. sint w = sentinel) ws"
  by (simp add: list_ex_iff is_sentinel_simps)

lemma tolist_replace_nan:
  "tolist (replace_nan sentinel ch) =
     map (\<lambda>x. if is_sentinel x then PyFloat NaN
              else if is_int64 ch \<and> list_ex is_sentinel (tolist ch) then as_float64 x
              else x) (tolist ch)"
proof (cases ch)
  case (Int64 ws)
  show ?thesis
  proof (cases "list_ex (\<lambda>w. sint w = sentinel) ws")
    case True
    then have "list_ex is_sentinel (map (\<lambda>w. PyInt (sint w)) ws)"
      by (simp add: int64_holds_sentinel)
    with True Int64 show ?thesis by (simp add: is_sentinel_simps comp_def)
  next
    case False
    then have "\<not> list_ex is_sentinel (map (\<lambda>w. PyInt (sint w)) ws)"
      by (simp add: int64_holds_sentinel)
    moreover from False have "\<forall>w \<in> set ws. sint w \<noteq> sentinel" by (simp add: list_ex_iff)
    ultimately show ?thesis using False Int64 by (simp add: is_sentinel_simps)
  qed
next
  case (Float64 fs)
  then show ?thesis by (simp add: is_sentinel_simps)
next
  case (Bool bs)
  then show ?thesis by (simp add: is_sentinel_simps)
next
  case (Object os)
  then show ?thesis by (simp add: is_sentinel_def)
qed

lemma as_float64_not_sentinel: "\<not> is_sentinel x \<Longrightarrow> \<not> is_sentinel (as_float64 x)"
  by (cases x) (simp_all add: is_sentinel_simps float64_of_int_sentinel)

lemma replace_nan_free: "list_all (\<lambda>x. \<not> is_sentinel x) (tolist (replace_nan sentinel ch))"
  by (auto simp: tolist_replace_nan list_all_iff is_sentinel_simps as_float64_not_sentinel)

lemma replace_nan_length: "length (tolist (replace_nan sentinel ch)) = length (tolist ch)"
  by (simp add: tolist_replace_nan)



lemma replace_sentinel_free: "sentinel_free (replace_sentinel df)"
  by (induction df)
     (auto simp: replace_sentinel_def replace_df_def sentinel_free_def column_free_def
                 list_all_iff replace_nan_free [unfolded list_all_iff])

lemma replace_sentinel_columns: "columns (replace_sentinel df) = columns df"
  by (induction df) (auto simp: replace_sentinel_def replace_df_def columns_def)


lemma frames_ingest: "frames (ingest r) = map replace_sentinel (frames r)"
  by (simp add: frames_def ingest_def)


lemma sentinel_free_iff:
  "sentinel_free df \<longleftrightarrow> (\<forall>(name, col) \<in> set df. column_free col)"
  by (simp add: sentinel_free_def list_all_iff)

lemma sentinel_free_map_of:
  "sentinel_free df \<Longrightarrow> map_of df name = Some col \<Longrightarrow> column_free col"
  by (auto simp: sentinel_free_iff dest: map_of_SomeD)

lemma set_update_subset: "set (AList.update k v al) \<subseteq> insert (k, v) (set al)"
  by (induction al) auto

lemma column_free_nan: "column_free (nan_column ns)"
  by (simp add: column_free_def nan_column_def list_all_iff is_sentinel_simps)

lemma column_free_append: "column_free (a @ b) \<longleftrightarrow> column_free a \<and> column_free b"
  by (simp add: column_free_def)

lemma sentinel_free_setitem:
  "sentinel_free df \<Longrightarrow> column_free col \<Longrightarrow> sentinel_free (setitem df name col)"
  using set_update_subset [of name col df]
  by (auto simp: sentinel_free_iff setitem_def)

lemma sentinel_free_select:
  "sentinel_free df \<Longrightarrow> select_columns df names = Inr df' \<Longrightarrow> sentinel_free df'"
proof (induction names arbitrary: df')
  case Nil
  then show ?case by (simp add: sentinel_free_iff)
next
  case (Cons name names)
  from Cons.prems(2) obtain col rest where
    col: "map_of df name = Some col" and rest: "select_columns df names = Inr rest"
    and df': "df' = (name, col) # rest"
    by (auto split: option.splits sum.splits)
  from Cons.IH [OF Cons.prems(1) rest] sentinel_free_map_of [OF Cons.prems(1) col]
  show ?case by (simp add: df' sentinel_free_iff)
qed

lemma sentinel_free_append_df:
  assumes "sentinel_free a" and "sentinel_free b"
  shows "sentinel_free (append_df a b)"
  unfolding sentinel_free_iff
proof safe
  fix name col
  assume "(name, col) \<in> set (append_df a b)"
  then consider
    (left) col1 where "(name, col1) \<in> set a"
      "col = col1 @ (case map_of b name of Some col' \<Rightarrow> col' | None \<Rightarrow> nan_column (shape b))"
    | (right) col2 where "(name, col2) \<in> set b" "col = nan_column (shape a) @ col2"
    by (auto simp: append_df_def)
  then show "column_free col"
  proof cases
    case left
    from left(1) assms(1) have "column_free col1" by (auto simp: sentinel_free_iff)
    moreover have "column_free (case map_of b name of Some col' \<Rightarrow> col' | None \<Rightarrow> nan_column (shape b))"
      using sentinel_free_map_of [OF assms(2)]
      by (auto simp: column_free_nan split: option.splits)
    ultimately show ?thesis by (simp add: left(2) column_free_append)
  next
    case right
    from right(1) assms(2) have "column_free col2" by (auto simp: sentinel_free_iff)
    then show ?thesis by (simp add: right(2) column_free_append column_free_nan)
  qed
qed

lemma ingest_fields_free:
  "sentinel_free (app_train (ingest r))" "sentinel_free (app_test (ingest r))"
  "sentinel_free (bureau (ingest r))" "sentinel_free (bureau_balance (ingest r))"
  "sentinel_free (cash (ingest r))" "sentinel_free (credit (ingest r))"
  "sentinel_free (previous (ingest r))" "sentinel_free (installments (ingest r))"
  by (simp_all add: ingest_def replace_sentinel_free)

lemma assemble_ingest_frames_free:
  assumes "assemble (ingest r) = Inr env0"
  shows "list_all (\<lambda>(var, df). sentinel_free df) env0"
proof -
  let ?t = "setitem (app_test (ingest r)) ''TARGET'' (nan_column (shape (app_test (ingest r))))"
  from assms obtain selected where
    sel: "select_columns ?t (columns (app_train (ingest r))) = Inr selected" and
    env0: "env0 = [(''app'', append_df (app_train (ingest r)) selected),
                  (''bureau'', bureau (ingest r)),
                  (''bureau_balance'', bureau_balance (ingest r)),
                  (''cash'', cash (ingest r)),
                  (''credit'', credit (ingest r)),
                  (''previous'', previous (ingest r)),
                  (''installments'', installments (ingest r))]"
    by (auto simp: assemble_def Let_def split: sum.splits)
  have "sentinel_free ?t"
    by (rule sentinel_free_setitem [OF ingest_fields_free(2) column_free_nan])
  then have "sentinel_free selected" using sel by (rule sentinel_free_select)
  then have "sentinel_free (append_df (app_train (ingest r)) selected)"
    by (rule sentinel_free_append_df [OF ingest_fields_free(1)])
  then show ?thesis
    using ingest_fields_free [of r] by (simp add: env0)
qed

lemma assemble_ingest_free:
  assumes "assemble (ingest r) = Inr env0" and "map_of env0 var = Some df0"
  shows "sentinel_free df0"
  using assemble_ingest_frames_free [OF assms(1)] map_of_SomeD [OF assms(2)]
  by (auto simp: list_all_iff)



lemma ball_update:
  assumes "\<forall>x \<in> set al. Q x" and "Q (k, v)"
  shows "\<forall>x \<in> set (AList.update k v al). Q x"
  using set_update_subset [of k v al] assms by blast







lemma example_cleanup: "cleanup example_casts (ingest example_frames) = Inr example_cleaned"
  by code_simp




section \<open>Key columns after the cleanup\<close>

lemma traverse_rel: "traverse f xs = Inr ys \<Longrightarrow> list_all2 (\<lambda>x y. f x = Inr y) xs ys"
  by (induction xs arbitrary: ys) (auto split: sum.splits)

lemma sint_int64_range: "int64_range (sint (w :: 64 word))"
  using sint_ge [of w] sint_lt [of w] by (simp add: int64_range_def)

lemma sint_word_of_int: "int64_range i \<Longrightarrow> sint (word_of_int i :: 64 word) = i"
  by (simp add: int64_range_def sint_sbintrunc' signed_take_bit_int_eq_self)

lemma sint_float_to_int64:
  "sint (float_to_int64 r) = (if int64_range (trunc r) then trunc r else - (2 ^ 63))"
proof -
  have "int64_range (- (2 ^ 63))" by (simp add: int64_range_def)
  then show ?thesis by (simp add: float_to_int64_def sint_word_of_int)
qed

lemma trunc_0: "trunc 0 = 0"
  by (simp add: trunc_def)

lemma cast_float_key:
  "cast_float (if f = NaN then Num (of_int 0) else f) = Inr w
   \<Longrightarrow> key_cell c (PyFloat f) (PyInt (sint w))"
  by (cases f) (auto simp: sint_float_to_int64 trunc_0 int64_range_def)

lemma to_c_long_key: "to_c_long i = Inr w \<Longrightarrow> int64_range i \<and> sint w = i"
  by (auto simp: to_c_long_def sint_word_of_int split: if_splits)

lemma cast_object_key:
  assumes "cast_object c (if x = PyFloat NaN then PyInt 0 else x) = Inr w"
  shows "key_cell c x (PyInt (sint w))"
proof (cases x)
  case (PyInt i)
  with assms show ?thesis by (auto dest: to_c_long_key)
next
  case (PyFloat f)
  with assms show ?thesis by (cases f) (auto dest: to_c_long_key)
next
  case (PyBool b)
  with assms show ?thesis by auto
next
  case (PyStr s)
  with assms show ?thesis by (auto dest: to_c_long_key split: option.splits)
qed

lemma astype_fillna_chunk:
  assumes "astype_int64 c (fillna 0 ch) = Inr ch'"
  shows "is_int64 ch' \<and> list_all2 (key_cell c) (tolist ch) (tolist ch')"
proof (cases ch)
  case (Int64 ws)
  have "list_all2 (key_cell c) (map (\<lambda>w. PyInt (sint w)) ws) (map (\<lambda>w. PyInt (sint w)) ws)"
    by (simp add: list_all2_conv_all_nth sint_int64_range)
  with assms Int64 show ?thesis by auto
next
  case (Float64 fs)
  with assms obtain ws where ws: "traverse cast_float (map (\<lambda>f. if f = NaN then Num (of_int 0) else f) fs) = Inr ws"
    and ch': "ch' = Int64 ws"
    by (auto split: sum.splits)
  from traverse_rel [OF ws]
  have "list_all2 (\<lambda>f w. cast_float (if f = NaN then Num (of_int 0) else f) = Inr w) fs ws"
    by (simp add: list_all2_map1)
  then have "list_all2 (\<lambda>f w. key_cell c (PyFloat f) (PyInt (sint w))) fs ws"
    by (rule list_all2_mono) (rule cast_float_key)
  with Float64 ch' show ?thesis by (simp add: list_all2_map1 list_all2_map2)
next
  case (Bool bs)
  with assms show ?thesis by (auto simp: list_all2_conv_all_nth)
next
  case (Object os)
  with assms obtain ws where ws: "traverse (cast_object c) (map (\<lambda>x. if x = PyFloat NaN then PyInt 0 else x) os) = Inr ws"
    and ch': "ch' = Int64 ws"
    by (auto split: sum.splits)
  from traverse_rel [OF ws]
  have "list_all2 (\<lambda>x w. cast_object c (if x = PyFloat NaN then PyInt 0 else x) = Inr w) os ws"
    by (simp add: list_all2_map1)
  then have "list_all2 (\<lambda>x w. key_cell c x (PyInt (sint w))) os ws"
    by (rule list_all2_mono) (rule cast_object_key)
  with Object ch' show ?thesis by (simp add: list_all2_map2)
qed

lemma coerced_chunks:
  "coerced c col col' \<Longrightarrow> list_all2 (\<lambda>ch ch'. astype_int64 c (fillna 0 ch) = Inr ch') col col'"
  unfolding coerced_def by (drule traverse_rel) (simp add: list_all2_map1)

lemma coerced_cells:
  assumes "coerced c col col'"
  shows "list_all2 (\<lambda>ch ch'. is_int64 ch' \<and> list_all2 (key_cell c) (tolist ch) (tolist ch')) col col'"
  using coerced_chunks [OF assms] by (rule list_all2_mono) (rule astype_fillna_chunk)

lemma coerced_int64:
  assumes "coerced c col col'"
  shows "list_all is_int64 col'"
  using coerced_cells [OF assms] by (induction rule: list_all2_induct) simp_all

lemma coerced_of_int64: "list_all is_int64 col \<Longrightarrow> coerced c col col' \<longleftrightarrow> col' = col"
proof (induction col arbitrary: col')
  case Nil
  then show ?case by (auto simp: coerced_def)
next
  case (Cons ch col)
  from Cons.prems obtain ws where ch: "ch = Int64 ws" by (cases ch) simp_all
  from Cons.prems have rest: "list_all is_int64 col" by simp
  have "coerced c (ch # col) col' \<longleftrightarrow> (\<exists>rest. coerced c col rest \<and> col' = ch # rest)"
    unfolding coerced_def ch by (auto split: sum.splits)
  with Cons.IH [OF rest] show ?case by auto
qed

lemma int64_values: "list_all is_int64 col \<Longrightarrow> list_all (\<lambda>ch. list_all int64_value (tolist ch)) col"
proof (induction col)
  case Nil
  then show ?case by simp
next
  case (Cons ch col)
  then obtain ws where "ch = Int64 ws" by (cases ch) simp_all
  with Cons show ?case by (simp add: list_all_iff sint_int64_range)
qed

lemma frame_step_alt:
  "frame_step c K df df' =
     (\<forall>name. rel_option (column_step c (name \<in> K)) (map_of df name) (map_of df' name))"
  by (simp add: frame_step_def column_step_def [abs_def])

lemma column_step_refl: "column_step c key col col"
  by (simp add: column_step_def)

lemma column_step_trans:
  assumes "column_step c key col col'" and "column_step c key col' col''"
  shows "column_step c key col col''"
proof (cases "col' = col")
  case True
  with assms(2) show ?thesis by simp
next
  case False
  with assms(1) have k: "key" "coerced c col col'" by (simp_all add: column_step_def)
  then have "list_all is_int64 col'" by (simp add: coerced_int64)
  with assms(2) have "col'' = col'" by (auto simp: column_step_def coerced_of_int64)
  with k show ?thesis by (simp add: column_step_def)
qed

lemma frame_step_refl: "frame_step c K df df"
  by (simp add: frame_step_alt option.rel_refl column_step_refl)

lemma env_step_refl: "env_step c K env env"
  by (simp add: env_step_def option.rel_refl frame_step_refl)

lemma frame_step_trans:
  assumes "frame_step c K df df'" and "frame_step c K df' df''"
  shows "frame_step c K df df''"
  unfolding frame_step_alt
proof
  fix name
  from assms have a: "rel_option (column_step c (name \<in> K)) (map_of df name) (map_of df' name)"
    and b: "rel_option (column_step c (name \<in> K)) (map_of df' name) (map_of df'' name)"
    by (simp_all add: frame_step_alt)
  show "rel_option (column_step c (name \<in> K)) (map_of df name) (map_of df'' name)"
  proof (cases "map_of df name")
    case None
    with a b show ?thesis by (cases "map_of df' name"; cases "map_of df'' name") simp_all
  next
    case (Some col)
    with a obtain col' where 1: "map_of df' name = Some col'" "column_step c (name \<in> K) col col'"
      by (cases "map_of df' name") simp_all
    with b obtain col'' where 2: "map_of df'' name = Some col''" "column_step c (name \<in> K) col' col''"
      by (cases "map_of df'' name") simp_all
    from 1 2 Some show ?thesis by (simp add: column_step_trans [of c _ col col' col''])
  qed
qed

lemma env_step_trans:
  assumes "env_step c K env env'" and "env_step c K env' env''"
  shows "env_step c K env env''"
  unfolding env_step_def
proof
  fix var
  from assms have a: "rel_option (frame_step c K) (map_of env var) (map_of env' var)"
    and b: "rel_option (frame_step c K) (map_of env' var) (map_of env'' var)"
    by (simp_all add: env_step_def)
  show "rel_option (frame_step c K) (map_of env var) (map_of env'' var)"
  proof (cases "map_of env var")
    case None
    with a b show ?thesis by (cases "map_of env' var"; cases "map_of env'' var") simp_all
  next
    case (Some df)
    with a obtain df' where 1: "map_of env' var = Some df'" "frame_step c K df df'"
      by (cases "map_of env' var") simp_all
    with b obtain df'' where 2: "map_of env'' var = Some df''" "frame_step c K df' df''"
      by (cases "map_of env'' var") simp_all
    from 1 2 Some show ?thesis by (simp add: frame_step_trans [of c K df df' df''])
  qed
qed

lemma coerce_index_cases:
  assumes "coerce_index c index var env = Inr env'"
  obtains (absent) dataset where "map_of env var = Some dataset" "map_of dataset index = None"
      "env' = env"
    | (present) dataset col col' where "map_of env var = Some dataset"
      "map_of dataset index = Some col" "coerced c col col'"
      "env' = AList.update var (setitem dataset index col') env"
  using assms
  by (auto simp: coerce_index_def coerced_def split: option.splits sum.splits)

lemma coerce_index_step:
  assumes "coerce_index c index var env = Inr env'" and "index \<in> K"
  shows "env_step c K env env'"
  using assms(1)
proof (cases rule: coerce_index_cases)
  case (absent dataset)
  then show ?thesis by (simp add: env_step_refl)
next
  case (present dataset col col')
  have "frame_step c K dataset (setitem dataset index col')"
    using present(2,3) assms(2)
    by (auto simp: frame_step_alt setitem_def update_conv' column_step_def option.rel_refl)
  then show ?thesis
    using present(1)
    by (auto simp: env_step_def present(4) update_conv' option.rel_refl frame_step_refl)
qed

lemma coerce_index_ints:
  assumes "coerce_index c index var env = Inr env'"
  shows "ints_at index var env'"
  using assms
proof (cases rule: coerce_index_cases)
  case (absent dataset)
  then show ?thesis by (simp add: ints_at_def)
next
  case (present dataset col col')
  then show ?thesis
    using coerced_int64 [OF present(3)]
    by (simp add: ints_at_def update_conv' setitem_def)
qed

lemma column_step_ints:
  "column_step c key col col' \<Longrightarrow> list_all is_int64 col \<Longrightarrow> list_all is_int64 col'"
  unfolding column_step_def using coerced_int64 by blast

lemma env_step_ints:
  assumes "env_step c K env env'" and "ints_at index var env"
  shows "ints_at index var env'"
  unfolding ints_at_def
proof (intro allI impI)
  fix df' col'
  assume a: "map_of env' var = Some df'" and b: "map_of df' index = Some col'"
  from assms(1) have "rel_option (frame_step c K) (map_of env var) (map_of env' var)"
    by (simp add: env_step_def)
  with a obtain df where df: "map_of env var = Some df" and fs: "frame_step c K df df'"
    by (cases "map_of env var") simp_all
  from fs have "rel_option (column_step c (index \<in> K)) (map_of df index) (map_of df' index)"
    by (simp add: frame_step_alt)
  with b obtain col where col: "map_of df index = Some col" and cs: "column_step c (index \<in> K) col col'"
    by (cases "map_of df index") simp_all
  from assms(2) df col have "list_all is_int64 col" by (simp add: ints_at_def)
  with cs show "list_all is_int64 col'" by (rule column_step_ints)
qed

lemma for_datasets_step:
  "for_datasets c index vars env = Inr env' \<Longrightarrow> index \<in> K \<Longrightarrow> env_step c K env env'"
proof (induction vars arbitrary: env)
  case Nil
  then show ?case by (simp add: env_step_refl)
next
  case (Cons v vars)
  from Cons.prems(1) obtain env1 where
    s1: "coerce_index c index v env = Inr env1" and s2: "for_datasets c index vars env1 = Inr env'"
    by (auto split: sum.splits)
  show ?case
    by (rule env_step_trans [OF coerce_index_step [OF s1 Cons.prems(2)] Cons.IH [OF s2 Cons.prems(2)]])
qed

lemma for_datasets_ints:
  "for_datasets c index vars env = Inr env' \<Longrightarrow> var \<in> set vars \<Longrightarrow> ints_at index var env'"
proof (induction vars arbitrary: env)
  case Nil
  then show ?case by simp
next
  case (Cons v vars)
  from Cons.prems(1) obtain env1 where
    s1: "coerce_index c index v env = Inr env1" and s2: "for_datasets c index vars env1 = Inr env'"
    by (auto split: sum.splits)
  show ?case
  proof (cases "var = v")
    case True
    have "env_step c {index} env1 env'" by (rule for_datasets_step [OF s2]) simp
    then show ?thesis
      using coerce_index_ints [OF s1] True by (simp add: env_step_ints)
  next
    case False
    with Cons.prems(2) have "var \<in> set vars" by simp
    then show ?thesis using Cons.IH [OF s2] by simp
  qed
qed

lemma for_indexes_step:
  "for_indexes c indexes vars env = Inr env' \<Longrightarrow> set indexes \<subseteq> K \<Longrightarrow> env_step c K env env'"
proof (induction indexes arbitrary: env)
  case Nil
  then show ?case by (simp add: env_step_refl)
next
  case (Cons i indexes)
  from Cons.prems(1) obtain env1 where
    s1: "for_datasets c i vars env = Inr env1" and s2: "for_indexes c indexes vars env1 = Inr env'"
    by (auto split: sum.splits)
  from Cons.prems(2) have i: "i \<in> K" and rest: "set indexes \<subseteq> K" by simp_all
  show ?case
    by (rule env_step_trans [OF for_datasets_step [OF s1 i] Cons.IH [OF s2 rest]])
qed

lemma for_indexes_ints:
  "for_indexes c indexes vars env = Inr env' \<Longrightarrow> index \<in> set indexes \<Longrightarrow> var \<in> set vars
   \<Longrightarrow> ints_at index var env'"
proof (induction indexes arbitrary: env)
  case Nil
  then show ?case by simp
next
  case (Cons i indexes)
  from Cons.prems(1) obtain env1 where
    s1: "for_datasets c i vars env = Inr env1" and s2: "for_indexes c indexes vars env1 = Inr env'"
    by (auto split: sum.splits)
  show ?case
  proof (cases "index = i")
    case True
    have "env_step c (set indexes) env1 env'" by (rule for_indexes_step [OF s2]) simp
    then show ?thesis
      using for_datasets_ints [OF s1 Cons.prems(3)] True by (simp add: env_step_ints)
  next
    case False
    with Cons.prems(2) have "index \<in> set indexes" by simp
    then show ?thesis using Cons.IH [OF s2 _ Cons.prems(3)] by simp
  qed
qed

lemma map_of_filter_names:
  "map_of (filter (\<lambda>(name, col). name \<notin> A) df) k = (if k \<in> A then None else map_of df k)"
  by (induction df) auto

lemma map_of_drop_columns:
  "drop_columns df labels = Inr df' \<Longrightarrow> map_of df' k = (if k \<in> set labels then None else map_of df k)"
  by (auto simp: drop_columns_def map_of_filter_names split: list.splits)

lemma drop_columns_subframe: "drop_columns df labels = Inr df' \<Longrightarrow> subframe df' df"
  by (simp add: subframe_def map_of_drop_columns split: if_splits)

lemma subframe_refl: "subframe df df"
  by (simp add: subframe_def)

lemma subframe_trans: "subframe a b \<Longrightarrow> subframe b d \<Longrightarrow> subframe a d"
  by (simp add: subframe_def)

lemma drop_in_map_of:
  assumes "drop_in var labels env = Inr env'"
  shows "\<exists>df df'. map_of env var = Some df \<and> drop_columns df labels = Inr df'
           \<and> map_of env' = (map_of env)(var \<mapsto> df')"
  using assms by (auto simp: drop_in_def update_conv' split: option.splits sum.splits)

lemma drop_in_step: "drop_in var labels env = Inr env' \<Longrightarrow> drop_step env env'"
  by (drule drop_in_map_of)
     (auto simp: drop_step_def subframe_refl drop_columns_subframe split: if_splits)

lemma drop_step_trans: "drop_step a b \<Longrightarrow> drop_step b d \<Longrightarrow> drop_step a d"
  unfolding drop_step_def by (meson subframe_trans)

lemma drop_curr_parts:
  assumes "drop_curr env = Inr env'"
  obtains env1 env2 where
    "drop_in ''installments'' [''SK_ID_CURR''] env = Inr env1"
    "drop_in ''credit'' [''SK_ID_CURR''] env1 = Inr env2"
    "drop_in ''cash'' [''SK_ID_CURR''] env2 = Inr env'"
  using assms by (auto simp: drop_curr_def split: sum.splits)

lemma drop_curr_step:
  assumes "drop_curr env = Inr env'"
  shows "drop_step env env'"
proof -
  from assms obtain env1 env2 where
    "drop_in ''installments'' [''SK_ID_CURR''] env = Inr env1"
    "drop_in ''credit'' [''SK_ID_CURR''] env1 = Inr env2"
    "drop_in ''cash'' [''SK_ID_CURR''] env2 = Inr env'"
    by (rule drop_curr_parts)
  then show ?thesis
    using drop_in_step drop_step_trans by blast
qed

lemma cleanup_parts:
  assumes "cleanup c r = Inr env"
  obtains env0 env1 where
    "assemble r = Inr env0"
    "for_indexes c index_names dataset_names env0 = Inr env1"
    "drop_curr env1 = Inr env"
  using assms by (auto simp: cleanup_def split: sum.splits)

lemma assemble_names: "assemble r = Inr env0 \<Longrightarrow> map fst env0 = dataset_names"
  by (auto simp: assemble_def dataset_names_def Let_def split: sum.splits)

lemma env_step_dom:
  assumes "env_step c K env env'" and "map_of env' var = Some df'"
  shows "var \<in> fst ` set env"
proof -
  from assms(1) have "rel_option (frame_step c K) (map_of env var) (map_of env' var)"
    by (simp add: env_step_def)
  with assms(2) obtain df where "map_of env var = Some df" by (cases "map_of env var") simp_all
  then show ?thesis by (auto dest: map_of_SomeD intro: rev_image_eqI)
qed

lemma key_columns_cleaned:
  assumes "cleanup c (ingest r) = Inr env"
    and "map_of env var = Some df"
    and "index \<in> {''SK_ID_CURR'', ''SK_ID_PREV'', ''SK_ID_BUREAU''}"
    and "map_of df index = Some col"
  shows "list_all is_int64 col
    \<and> list_all (\<lambda>ch. list_all int64_value (tolist ch)) col
    \<and> (\<exists>env0 df0 col0.
          assemble (ingest r) = Inr env0 \<and> map_of env0 var = Some df0
          \<and> map_of df0 index = Some col0
          \<and> column_free col0
          \<and> list_all2 (\<lambda>ch0 ch. list_all2 (key_cell c) (tolist ch0) (tolist ch)) col0 col)"
proof -
  from assms(1) obtain env0 env1 where
    e0: "assemble (ingest r) = Inr env0" and
    e1: "for_indexes c index_names dataset_names env0 = Inr env1" and
    e2: "drop_curr env1 = Inr env"
    by (rule cleanup_parts)
  from assms(3) have index: "index \<in> set index_names" by (auto simp: index_names_def)
  from drop_curr_step [OF e2] assms(2) obtain df1 where
    df1: "map_of env1 var = Some df1" and sub: "subframe df df1"
    by (auto simp: drop_step_def)
  from sub assms(4) have col1: "map_of df1 index = Some col" by (simp add: subframe_def)
  have step: "env_step c (set index_names) env0 env1" by (rule for_indexes_step [OF e1]) simp
  have "var \<in> fst ` set env0" using step df1 by (rule env_step_dom)
  then have "var \<in> set dataset_names" using assemble_names [OF e0] by (metis set_map)
  then have "ints_at index var env1" using for_indexes_ints [OF e1 index] by simp
  with df1 col1 have ints: "list_all is_int64 col" by (simp add: ints_at_def)
  from step have "rel_option (frame_step c (set index_names)) (map_of env0 var) (map_of env1 var)"
    by (simp add: env_step_def)
  with df1 obtain df0 where df0: "map_of env0 var = Some df0"
    and fs: "frame_step c (set index_names) df0 df1"
    by (cases "map_of env0 var") simp_all
  from fs have "rel_option (column_step c (index \<in> set index_names))
      (map_of df0 index) (map_of df1 index)"
    by (simp add: frame_step_alt)
  with col1 obtain col0 where col0: "map_of df0 index = Some col0"
    and cs: "column_step c (index \<in> set index_names) col0 col"
    by (cases "map_of df0 index") simp_all
  have "coerced c col0 col"
  proof (cases "col = col0")
    case True
    with ints show ?thesis by (simp add: coerced_of_int64)
  next
    case False
    with cs show ?thesis by (simp add: column_step_def)
  qed
  then have "list_all2 (\<lambda>ch0 ch. is_int64 ch \<and> list_all2 (key_cell c) (tolist ch0) (tolist ch)) col0 col"
    by (rule coerced_cells)
  then have key: "list_all2 (\<lambda>ch0 ch. list_all2 (key_cell c) (tolist ch0) (tolist ch)) col0 col"
    by (rule list_all2_mono) simp
  have free: "column_free col0"
    by (rule sentinel_free_map_of [OF assemble_ingest_free [OF e0 df0] col0])
  from ints int64_values [OF ints] e0 df0 col0 free key show ?thesis by blast
qed

section \<open>The cleanup succeeds on ready frames\<close>

lemma traverse_succeeds:
  "(\<And>x. x \<in> set xs \<Longrightarrow> \<exists>y. f x = Inr y) \<Longrightarrow> \<exists>ys. traverse f xs = Inr ys"
proof (induction xs)
  case Nil
  then show ?case by simp
next
  case (Cons x xs)
  from Cons.prems [of x] obtain y where y: "f x = Inr y" by auto
  from Cons.IH Cons.prems obtain ys where "traverse f xs = Inr ys" by auto
  with y show ?case by simp
qed

lemma numeric_chunk_casts:
  assumes "numeric_chunk ch"
  shows "\<exists>ch'. astype_int64 c (fillna 0 ch) = Inr ch'"
proof (cases ch)
  case (Int64 ws)
  then show ?thesis by simp
next
  case (Float64 fs)
  have "\<exists>ws. traverse cast_float (map (\<lambda>f. if f = NaN then Num (of_int 0) else f) fs) = Inr ws"
  proof (rule traverse_succeeds)
    fix x
    assume "x \<in> set (map (\<lambda>f. if f = NaN then Num (of_int 0) else f) fs)"
    then obtain f where f: "f \<in> set fs" and x: "x = (if f = NaN then Num (of_int 0) else f)"
      by auto
    from assms Float64 f have "case f of Infinity s \<Rightarrow> False | _ \<Rightarrow> True"
      by (simp add: list_all_iff)
    with x show "\<exists>y. cast_float x = Inr y" by (cases f) simp_all
  qed
  with Float64 show ?thesis by auto
next
  case (Bool bs)
  then show ?thesis by simp
next
  case (Object os)
  with assms show ?thesis by simp
qed

lemma numeric_column_coerced:
  assumes "list_all numeric_chunk col"
  shows "\<exists>col'. coerced c col col'"
  unfolding coerced_def
proof (rule traverse_succeeds)
  fix x
  assume "x \<in> set (map (fillna 0) col)"
  then obtain ch where "ch \<in> set col" and x: "x = fillna 0 ch" by auto
  with assms have "numeric_chunk ch" by (simp add: list_all_iff)
  then show "\<exists>y. astype_int64 c x = Inr y" unfolding x by (rule numeric_chunk_casts)
qed

lemma int64_numeric: "list_all is_int64 col \<Longrightarrow> list_all numeric_chunk col"
proof (induction col)
  case Nil
  then show ?case by simp
next
  case (Cons ch col)
  then show ?case by (cases ch) simp_all
qed

lemma numeric_replace_nan: "numeric_chunk ch \<Longrightarrow> numeric_chunk (replace_nan v ch)"
  by (cases ch) (auto simp: list_all_iff split: float64.splits)

lemma numeric_keys_iff:
  "numeric_keys df \<longleftrightarrow>
     (\<forall>(name, col) \<in> set df. name \<in> set index_names \<longrightarrow> list_all numeric_chunk col)"
  by (simp add: numeric_keys_def list_all_iff)

lemma numeric_keys_replace:
  assumes "numeric_keys df"
  shows "numeric_keys (replace_sentinel df)"
  unfolding numeric_keys_iff
proof safe
  fix name col
  assume "(name, col) \<in> set (replace_sentinel df)" and key: "name \<in> set index_names"
  then obtain col0 where mem: "(name, col0) \<in> set df" and col: "col = map (replace_nan sentinel) col0"
    by (auto simp: replace_sentinel_def replace_df_def)
  from assms mem key have "list_all numeric_chunk col0" by (auto simp: numeric_keys_iff)
  then show "list_all numeric_chunk col"
    by (simp add: col list_all_iff numeric_replace_nan)
qed

lemma numeric_nan_column: "list_all numeric_chunk (nan_column ns)"
  by (simp add: nan_column_def list_all_iff)

lemma numeric_keys_map_of:
  "numeric_keys df \<Longrightarrow> map_of df name = Some col \<Longrightarrow> name \<in> set index_names
   \<Longrightarrow> list_all numeric_chunk col"
  by (auto simp: numeric_keys_iff dest: map_of_SomeD)

lemma numeric_keys_setitem:
  assumes "numeric_keys df" and "list_all numeric_chunk col"
  shows "numeric_keys (setitem df name col)"
proof -
  let ?Q = "\<lambda>(name, col). name \<in> set index_names \<longrightarrow> list_all numeric_chunk col"
  from assms(1) have "\<forall>x \<in> set df. ?Q x" by (simp add: numeric_keys_iff)
  moreover from assms(2) have "?Q (name, col)" by simp
  ultimately have "\<forall>x \<in> set (AList.update name col df). ?Q x" by (rule ball_update)
  then show ?thesis by (simp add: numeric_keys_iff setitem_def)
qed

lemma select_columns_succeeds:
  assumes "\<forall>name \<in> set names. map_of df name \<noteq> None"
  shows "\<exists>df'. select_columns df names = Inr df'"
  using assms
proof (induction names)
  case Nil
  then show ?case by simp
next
  case (Cons name names)
  then obtain col where "map_of df name = Some col" by auto
  moreover from Cons obtain rest where "select_columns df names = Inr rest" by auto
  ultimately show ?case by simp
qed

lemma select_columns_entries:
  "select_columns df names = Inr df' \<Longrightarrow> (name, col) \<in> set df' \<Longrightarrow> map_of df name = Some col"
proof (induction names arbitrary: df')
  case Nil
  then show ?case by simp
next
  case (Cons n names)
  from Cons.prems(1) obtain c rest where
    c: "map_of df n = Some c" and rest: "select_columns df names = Inr rest"
    and df': "df' = (n, c) # rest"
    by (auto split: option.splits sum.splits)
  from Cons.prems(2) df' consider "(name, col) = (n, c)" | "(name, col) \<in> set rest" by auto
  then show ?case
  proof cases
    case 1
    with c show ?thesis by simp
  next
    case 2
    with Cons.IH [OF rest] show ?thesis by simp
  qed
qed

lemma numeric_keys_select:
  assumes "numeric_keys df" and "select_columns df names = Inr df'"
  shows "numeric_keys df'"
  unfolding numeric_keys_iff
proof safe
  fix name col
  assume "(name, col) \<in> set df'" and "name \<in> set index_names"
  with select_columns_entries [OF assms(2)] numeric_keys_map_of [OF assms(1)]
  show "list_all numeric_chunk col" by blast
qed

lemma numeric_keys_append_df:
  assumes "numeric_keys a" and "numeric_keys b"
  shows "numeric_keys (append_df a b)"
  unfolding numeric_keys_iff
proof safe
  fix name col
  assume mem: "(name, col) \<in> set (append_df a b)" and key: "name \<in> set index_names"
  from mem consider
    (left) col1 where "(name, col1) \<in> set a"
      "col = col1 @ (case map_of b name of Some col' \<Rightarrow> col' | None \<Rightarrow> nan_column (shape b))"
    | (right) col2 where "(name, col2) \<in> set b" "col = nan_column (shape a) @ col2"
    by (auto simp: append_df_def)
  then show "list_all numeric_chunk col"
  proof cases
    case left
    from left(1) assms(1) key have "list_all numeric_chunk col1" by (auto simp: numeric_keys_iff)
    moreover have "list_all numeric_chunk
        (case map_of b name of Some col' \<Rightarrow> col' | None \<Rightarrow> nan_column (shape b))"
      using numeric_keys_map_of [OF assms(2) _ key]
      by (auto simp: numeric_nan_column split: option.splits)
    ultimately show ?thesis by (simp add: left(2))
  next
    case right
    from right(1) assms(2) key have "list_all numeric_chunk col2" by (auto simp: numeric_keys_iff)
    then show ?thesis by (simp add: right(2) numeric_nan_column)
  qed
qed

lemma loop_ready_lookup:
  "loop_ready env \<Longrightarrow> var \<in> set dataset_names \<Longrightarrow> \<exists>df. map_of env var = Some df \<and> numeric_keys df"
proof -
  assume r: "loop_ready env" and v: "var \<in> set dataset_names"
  then have "var \<in> fst ` set env" by (metis loop_ready_def set_map)
  then obtain df where df: "map_of env var = Some df"
    by (cases "map_of env var") (auto simp: map_of_eq_None_iff)
  then have "(var, df) \<in> set env" by (rule map_of_SomeD)
  with r df show ?thesis by (auto simp: loop_ready_def)
qed

lemma coerce_index_succeeds:
  assumes "loop_ready env" and "var \<in> set dataset_names" and "index \<in> set index_names"
  shows "\<exists>env'. coerce_index c index var env = Inr env' \<and> loop_ready env'"
proof -
  from loop_ready_lookup [OF assms(1,2)] obtain dataset where
    ds: "map_of env var = Some dataset" and num: "numeric_keys dataset" by blast
  show ?thesis
  proof (cases "map_of dataset index")
    case None
    with ds assms(1) show ?thesis by (simp add: coerce_index_def)
  next
    case (Some col)
    from numeric_keys_map_of [OF num Some assms(3)] obtain col' where
      co: "coerced c col col'" using numeric_column_coerced by blast
    then have "list_all numeric_chunk col'" by (simp add: coerced_int64 int64_numeric)
    with num have num': "numeric_keys (setitem dataset index col')" by (rule numeric_keys_setitem)
    let ?env' = "AList.update var (setitem dataset index col') env"
    from ds have "var \<in> set (map fst env)" by (auto dest: map_of_SomeD intro: rev_image_eqI)
    then have keys: "map fst ?env' = map fst env" by (simp add: update_keys)
    have "\<forall>x \<in> set ?env'. (\<lambda>(var, df). numeric_keys df) x"
      using assms(1) num' by (intro ball_update) (auto simp: loop_ready_def)
    with keys assms(1) have "loop_ready ?env'" by (auto simp: loop_ready_def)
    moreover from ds Some co have "coerce_index c index var env = Inr ?env'"
      by (simp add: coerce_index_def coerced_def)
    ultimately show ?thesis by blast
  qed
qed

lemma for_datasets_succeeds:
  "loop_ready env \<Longrightarrow> set vars \<subseteq> set dataset_names \<Longrightarrow> index \<in> set index_names
   \<Longrightarrow> \<exists>env'. for_datasets c index vars env = Inr env' \<and> loop_ready env'"
proof (induction vars arbitrary: env)
  case Nil
  then show ?case by simp
next
  case (Cons v vars)
  from Cons.prems(2) have v: "v \<in> set dataset_names" and rest: "set vars \<subseteq> set dataset_names"
    by simp_all
  from coerce_index_succeeds [OF Cons.prems(1) v Cons.prems(3)] obtain env1 where
    s1: "coerce_index c index v env = Inr env1" and r1: "loop_ready env1" by blast
  from Cons.IH [OF r1 rest Cons.prems(3)] obtain env' where
    "for_datasets c index vars env1 = Inr env'" and "loop_ready env'" by blast
  with s1 show ?case by simp
qed

lemma for_indexes_succeeds:
  "loop_ready env \<Longrightarrow> set vars \<subseteq> set dataset_names \<Longrightarrow> set indexes \<subseteq> set index_names
   \<Longrightarrow> \<exists>env'. for_indexes c indexes vars env = Inr env' \<and> loop_ready env'"
proof (induction indexes arbitrary: env)
  case Nil
  then show ?case by simp
next
  case (Cons i indexes)
  from Cons.prems(3) have i: "i \<in> set index_names" and rest: "set indexes \<subseteq> set index_names"
    by simp_all
  from for_datasets_succeeds [OF Cons.prems(1,2) i] obtain env1 where
    s1: "for_datasets c i vars env = Inr env1" and r1: "loop_ready env1" by blast
  from Cons.IH [OF r1 Cons.prems(2) rest] obtain env' where
    "for_indexes c indexes vars env1 = Inr env'" and "loop_ready env'" by blast
  with s1 show ?case by simp
qed

lemma env_step_column_kept:
  assumes "env_step c K env env'" and "map_of env var = Some df" and "map_of df name = Some col"
  shows "\<exists>df' col'. map_of env' var = Some df' \<and> map_of df' name = Some col'"
proof -
  from assms(1) have "rel_option (frame_step c K) (map_of env var) (map_of env' var)"
    by (simp add: env_step_def)
  with assms(2) obtain df' where df': "map_of env' var = Some df'" and fs: "frame_step c K df df'"
    by (cases "map_of env' var") simp_all
  from fs have "rel_option (column_step c (name \<in> K)) (map_of df name) (map_of df' name)"
    by (simp add: frame_step_alt)
  with assms(3) obtain col' where "map_of df' name = Some col'"
    by (cases "map_of df' name") simp_all
  with df' show ?thesis by blast
qed

lemma drop_in_other:
  assumes "drop_in var labels env = Inr env'" and "var' \<noteq> var"
  shows "map_of env' var' = map_of env var'"
  using drop_in_map_of [OF assms(1)] assms(2) by auto

lemma drop_in_succeeds:
  assumes "map_of env var = Some df" and "map_of df label = Some col"
  shows "\<exists>env'. drop_in var [label] env = Inr env'"
  using assms by (simp add: drop_in_def drop_columns_def)

lemma drop_curr_succeeds:
  assumes "\<exists>df col. map_of env ''installments'' = Some df \<and> map_of df ''SK_ID_CURR'' = Some col"
    and "\<exists>df col. map_of env ''credit'' = Some df \<and> map_of df ''SK_ID_CURR'' = Some col"
    and "\<exists>df col. map_of env ''cash'' = Some df \<and> map_of df ''SK_ID_CURR'' = Some col"
  shows "\<exists>env'. drop_curr env = Inr env'"
proof -
  from assms(1) obtain env1 where d1: "drop_in ''installments'' [''SK_ID_CURR''] env = Inr env1"
    using drop_in_succeeds by blast
  have "map_of env1 ''credit'' = map_of env ''credit''" by (rule drop_in_other [OF d1]) simp
  with assms(2) obtain env2 where d2: "drop_in ''credit'' [''SK_ID_CURR''] env1 = Inr env2"
    using drop_in_succeeds by metis
  have "map_of env2 ''cash'' = map_of env1 ''cash''" by (rule drop_in_other [OF d2]) simp
  moreover have "map_of env1 ''cash'' = map_of env ''cash''" by (rule drop_in_other [OF d1]) simp
  ultimately obtain env3 where d3: "drop_in ''cash'' [''SK_ID_CURR''] env2 = Inr env3"
    using assms(3) drop_in_succeeds by metis
  from d1 d2 d3 show ?thesis by (simp add: drop_curr_def)
qed

lemma has_column: "name \<in> set (columns df) \<Longrightarrow> \<exists>col. map_of df name = Some col"
  by (cases "map_of df name") (auto simp: columns_def map_of_eq_None_iff)

lemma cleanup_succeeds:
  assumes "ready r"
  shows "\<exists>env. cleanup c (ingest r) = Inr env"
proof -
  let ?r = "ingest r"
  let ?t = "setitem (app_test ?r) ''TARGET'' (nan_column (shape (app_test ?r)))"
  from assms have num: "\<forall>df \<in> set (frames r). numeric_keys df"
    and cols: "\<forall>name \<in> set (columns (app_train r)). name = ''TARGET'' \<or> name \<in> set (columns (app_test r))"
    and curr: "''SK_ID_CURR'' \<in> set (columns (cash r))" "''SK_ID_CURR'' \<in> set (columns (credit r))"
      "''SK_ID_CURR'' \<in> set (columns (installments r))"
    by (simp_all add: ready_def list_all_iff)
  from num have numi: "\<forall>df \<in> set (frames ?r). numeric_keys df"
    by (auto simp: frames_ingest numeric_keys_replace)
  have train: "columns (app_train ?r) = columns (app_train r)"
    and test: "columns (app_test ?r) = columns (app_test r)"
    by (simp_all add: ingest_def replace_sentinel_columns)
  have "\<forall>name \<in> set (columns (app_train ?r)). map_of ?t name \<noteq> None"
  proof
    fix name
    assume "name \<in> set (columns (app_train ?r))"
    with cols train consider "name = ''TARGET''" | "name \<in> set (columns (app_test ?r))"
      using test by auto
    then show "map_of ?t name \<noteq> None"
      by cases (auto simp: setitem_def update_conv' dest: has_column)
  qed
  then obtain selected where sel: "select_columns ?t (columns (app_train ?r)) = Inr selected"
    using select_columns_succeeds by blast
  define env0 where "env0 = [(''app'', append_df (app_train ?r) selected),
                  (''bureau'', bureau ?r),
                  (''bureau_balance'', bureau_balance ?r),
                  (''cash'', cash ?r),
                  (''credit'', credit ?r),
                  (''previous'', previous ?r),
                  (''installments'', installments ?r)]"
  from sel have e0: "assemble ?r = Inr env0" by (simp add: assemble_def Let_def env0_def)
  from numi have fields: "numeric_keys (app_train ?r)" "numeric_keys (app_test ?r)"
    "numeric_keys (bureau ?r)" "numeric_keys (bureau_balance ?r)" "numeric_keys (cash ?r)"
    "numeric_keys (credit ?r)" "numeric_keys (previous ?r)" "numeric_keys (installments ?r)"
    by (simp_all add: frames_def)
  have "numeric_keys ?t" by (rule numeric_keys_setitem [OF fields(2) numeric_nan_column])
  then have "numeric_keys selected" using sel by (rule numeric_keys_select)
  then have "numeric_keys (append_df (app_train ?r) selected)"
    by (rule numeric_keys_append_df [OF fields(1)])
  with fields have "loop_ready env0" by (simp add: loop_ready_def env0_def dataset_names_def)
  then obtain env1 where e1: "for_indexes c index_names dataset_names env0 = Inr env1"
    using for_indexes_succeeds [of env0 dataset_names index_names c] by auto
  have step: "env_step c (set index_names) env0 env1" by (rule for_indexes_step [OF e1]) simp
  have c0: "\<exists>col. map_of (cash ?r) ''SK_ID_CURR'' = Some col"
    "\<exists>col. map_of (credit ?r) ''SK_ID_CURR'' = Some col"
    "\<exists>col. map_of (installments ?r) ''SK_ID_CURR'' = Some col"
    using curr by (simp_all add: ingest_def replace_sentinel_columns has_column)
  have m0: "map_of env0 ''installments'' = Some (installments ?r)"
    "map_of env0 ''credit'' = Some (credit ?r)" "map_of env0 ''cash'' = Some (cash ?r)"
    by (simp_all add: env0_def)
  from c0(3) obtain col3 where "map_of (installments ?r) ''SK_ID_CURR'' = Some col3" by blast
  from env_step_column_kept [OF step m0(1) this]
  have "\<exists>df col. map_of env1 ''installments'' = Some df \<and> map_of df ''SK_ID_CURR'' = Some col" .
  moreover from c0(2) obtain col2 where "map_of (credit ?r) ''SK_ID_CURR'' = Some col2" by blast
  from env_step_column_kept [OF step m0(2) this]
  have "\<exists>df col. map_of env1 ''credit'' = Some df \<and> map_of df ''SK_ID_CURR'' = Some col" .
  moreover from c0(1) obtain col1 where "map_of (cash ?r) ''SK_ID_CURR'' = Some col1" by blast
  from env_step_column_kept [OF step m0(3) this]
  have "\<exists>df col. map_of env1 ''cash'' = Some df \<and> map_of df ''SK_ID_CURR'' = Some col" .
  ultimately obtain env where "drop_curr env1 = Inr env" using drop_curr_succeeds by blast
  with e0 e1 show ?thesis by (simp add: cleanup_def)
qed

lemma coerce_index_names:
  assumes "coerce_index c index var env = Inr env'"
  shows "map fst env' = map fst env"
  using assms
proof (cases rule: coerce_index_cases)
  case (absent dataset)
  then show ?thesis by simp
next
  case (present dataset col col')
  from present(1) have "var \<in> set (map fst env)"
    by (auto dest: map_of_SomeD intro: rev_image_eqI)
  with present(4) show ?thesis by (simp add: update_keys)
qed

lemma for_datasets_names: "for_datasets c index vars env = Inr env' \<Longrightarrow> map fst env' = map fst env"
proof (induction vars arbitrary: env)
  case Nil
  then show ?case by simp
next
  case (Cons v vars)
  from Cons.prems obtain env1 where
    s1: "coerce_index c index v env = Inr env1" and s2: "for_datasets c index vars env1 = Inr env'"
    by (auto split: sum.splits)
  from Cons.IH [OF s2] coerce_index_names [OF s1] show ?case by simp
qed

lemma for_indexes_names: "for_indexes c indexes vars env = Inr env' \<Longrightarrow> map fst env' = map fst env"
proof (induction indexes arbitrary: env)
  case Nil
  then show ?case by simp
next
  case (Cons i indexes)
  from Cons.prems obtain env1 where
    s1: "for_datasets c i vars env = Inr env1" and s2: "for_indexes c indexes vars env1 = Inr env'"
    by (auto split: sum.splits)
  from Cons.IH [OF s2] for_datasets_names [OF s1] show ?case by simp
qed

lemma drop_in_names: "drop_in var labels env = Inr env' \<Longrightarrow> map fst env' = map fst env"
proof -
  assume a: "drop_in var labels env = Inr env'"
  then obtain df df' where ds: "map_of env var = Some df" and env': "env' = AList.update var df' env"
    by (auto simp: drop_in_def split: option.splits sum.splits)
  from ds have "var \<in> set (map fst env)" by (auto dest: map_of_SomeD intro: rev_image_eqI)
  with env' show ?thesis by (simp add: update_keys)
qed

lemma cleanup_names:
  assumes "cleanup c r = Inr env"
  shows "map fst env = dataset_names"
proof -
  from assms obtain env0 env1 where
    e0: "assemble r = Inr env0" and
    e1: "for_indexes c index_names dataset_names env0 = Inr env1" and
    e2: "drop_curr env1 = Inr env"
    by (rule cleanup_parts)
  from e2 obtain env2 env3 where
    "drop_in ''installments'' [''SK_ID_CURR''] env1 = Inr env2"
    "drop_in ''credit'' [''SK_ID_CURR''] env2 = Inr env3"
    "drop_in ''cash'' [''SK_ID_CURR''] env3 = Inr env"
    by (rule drop_curr_parts)
  then have "map fst env = map fst env1" by (simp add: drop_in_names)
  with for_indexes_names [OF e1] assemble_names [OF e0] show ?thesis by simp
qed

lemma assemble_unchanged_frames:
  assumes "assemble r = Inr env0"
  shows "map_of env0 ''bureau'' = Some (bureau r)
    \<and> map_of env0 ''bureau_balance'' = Some (bureau_balance r)
    \<and> map_of env0 ''cash'' = Some (cash r)
    \<and> map_of env0 ''credit'' = Some (credit r)
    \<and> map_of env0 ''previous'' = Some (previous r)
    \<and> map_of env0 ''installments'' = Some (installments r)"
  using assms by (auto simp: assemble_def Let_def split: sum.splits)

text \<open>
  Claim C9. On frames whose key columns are int64, bool or float64 without an infinity
  (and which have the columns the cell names), the cleanup of cell 12 succeeds. Whenever
  it succeeds on the ingested frames, it leaves the seven frames for registration, and
  every column named SK_ID_CURR, SK_ID_PREV or SK_ID_BUREAU of every one of them is made
  of int64 chunks only, so it holds 64-bit integers and no missing value. The column
  comes, cell by cell, from the column of the same name in the frame as it was before the
  loop, which holds no 365243 any more (normalization has made those missing): an integer
  is kept, a finite float is truncated, and every missing cell has become the key 0.
  Before the loop the six frames other than \<^verbatim>\<open>app\<close> are the normalized frames as
  read.
\<close>

theorem key_columns_int64:
  "(ready r \<longrightarrow> (\<exists>env. cleanup c (ingest r) = Inr env))
   \<and> (\<forall>env. cleanup c (ingest r) = Inr env \<longrightarrow> map fst env = dataset_names)
   \<and> (\<forall>env0. assemble (ingest r) = Inr env0
         \<longrightarrow> map_of env0 ''bureau'' = Some (replace_sentinel (bureau r))
             \<and> map_of env0 ''bureau_balance'' = Some (replace_sentinel (bureau_balance r))
             \<and> map_of env0 ''cash'' = Some (replace_sentinel (cash r))
             \<and> map_of env0 ''credit'' = Some (replace_sentinel (credit r))
             \<and> map_of env0 ''previous'' = Some (replace_sentinel (previous r))
             \<and> map_of env0 ''installments'' = Some (replace_sentinel (installments r)))
   \<and> (\<forall>env var df index col.
         cleanup c (ingest r) = Inr env \<and> map_of env var = Some df
         \<and> index \<in> {''SK_ID_CURR'', ''SK_ID_PREV'', ''SK_ID_BUREAU''}
         \<and> map_of df index = Some col
         \<longrightarrow> list_all is_int64 col
             \<and> list_all (\<lambda>ch. list_all int64_value (tolist ch)) col
             \<and> (\<exists>env0 df0 col0.
                   assemble (ingest r) = Inr env0 \<and> map_of env0 var = Some df0
                   \<and> map_of df0 index = Some col0
                   \<and> column_free col0
                   \<and> list_all2 (\<lambda>ch0 ch. list_all2 (key_cell c) (tolist ch0) (tolist ch))
                        col0 col))"
proof -
  have before: "\<forall>env0. assemble (ingest r) = Inr env0
         \<longrightarrow> map_of env0 ''bureau'' = Some (replace_sentinel (bureau r))
             \<and> map_of env0 ''bureau_balance'' = Some (replace_sentinel (bureau_balance r))
             \<and> map_of env0 ''cash'' = Some (replace_sentinel (cash r))
             \<and> map_of env0 ''credit'' = Some (replace_sentinel (credit r))
             \<and> map_of env0 ''previous'' = Some (replace_sentinel (previous r))
             \<and> map_of env0 ''installments'' = Some (replace_sentinel (installments r))"
    using assemble_unchanged_frames [of "ingest r"] by (simp add: ingest_def)
  show ?thesis
    using cleanup_succeeds [of r c] cleanup_names [of c "ingest r"] key_columns_cleaned [of c r]
      before
    by blast
qed

theorem key_columns_int64_witness:
  "ready example_frames
   \<and> cleanup example_casts (ingest example_frames) = Inr example_cleaned
   \<and> map fst example_cleaned = dataset_names
   \<and> map_of (bureau example_frames) ''SK_ID_CURR''
       = Some [Float64 [Num 1, Num (- 5 / 2), Num 365243, NaN]]
   \<and> map_of (bureau (ingest example_frames)) ''SK_ID_CURR''
       = Some [Float64 [Num 1, Num (- 5 / 2), NaN, NaN]]
   \<and> list_all is_int64 [Int64 [1, - 2, 0, 0]]
   \<and> list_all (\<lambda>ch. list_all int64_value (tolist ch)) [Int64 [1, - 2, 0, 0]]
   \<and> list_all is_int64 [Int64 [5, 6]]
   \<and> list_all is_int64 [Int64 [10]]"
proof -
  note inst = key_columns_int64 [where r = example_frames and c = example_casts]
  have rdy: "ready example_frames" by code_simp
  with inst have "\<exists>env. cleanup example_casts (ingest example_frames) = Inr env" by blast
  from inst example_cleanup have names: "map fst example_cleaned = dataset_names" by blast
  note cleaned = inst [THEN conjunct2, THEN conjunct2, THEN conjunct2, rule_format]
  have raw: "map_of (bureau (ingest example_frames)) ''SK_ID_CURR''
       = Some [Float64 [Num 1, Num (- 5 / 2), NaN, NaN]]"
    by code_simp
  have b: "map_of example_cleaned ''bureau''
       = Some [(''SK_ID_BUREAU'', [Int64 [10, 11, 12, 13]]),
               (''SK_ID_CURR'', [Int64 [1, - 2, 0, 0]]),
               (''DAYS_CREDIT'', [Float64 [NaN, Num (- 7), Num (1 / 2), NaN]])]"
    by (simp add: example_cleaned_def)
  have bc: "map_of [(''SK_ID_BUREAU'', [Int64 [10, 11, 12, 13]]),
               (''SK_ID_CURR'', [Int64 [1, - 2, 0, 0]]),
               (''DAYS_CREDIT'', [Float64 [NaN, Num (- 7), Num (1 / 2), NaN]])] ''SK_ID_CURR''
       = Some [Int64 [1, - 2, 0, 0]]"
    by simp
  have p: "map_of example_cleaned ''previous''
       = Some [(''SK_ID_PREV'', [Int64 [5, 6]]),
               (''SK_ID_CURR'', [Int64 [0, 9007199254740992]])]"
    by (simp add: example_cleaned_def)
  have pc: "map_of [(''SK_ID_PREV'', [Int64 [5, 6]]),
               (''SK_ID_CURR'', [Int64 [0, 9007199254740992]])] ''SK_ID_PREV''
       = Some [Int64 [5, 6]]"
    by simp
  have bb: "map_of example_cleaned ''bureau_balance''
       = Some [(''SK_ID_BUREAU'', [Int64 [10]]), (''STATUS'', [Object [PyStr ''C'']])]"
    by (simp add: example_cleaned_def)
  have bbc: "map_of [(''SK_ID_BUREAU'', [Int64 [10]]), (''STATUS'', [Object [PyStr ''C'']])]
       ''SK_ID_BUREAU'' = Some [Int64 [10]]"
    by simp
  from cleaned [of example_cleaned "''bureau''" _ "''SK_ID_CURR''" "[Int64 [1, - 2, 0, 0]]"]
    example_cleanup b bc
  have curr: "list_all is_int64 [Int64 [1, - 2, 0, 0]]
      \<and> list_all (\<lambda>ch. list_all int64_value (tolist ch)) [Int64 [1, - 2, 0, 0]]"
    by simp
  from cleaned [of example_cleaned "''previous''" _ "''SK_ID_PREV''" "[Int64 [5, 6]]"]
    example_cleanup p pc
  have prev: "list_all is_int64 [Int64 [5, 6]]" by simp
  from cleaned [of example_cleaned "''bureau_balance''" _ "''SK_ID_BUREAU''" "[Int64 [10]]"]
    example_cleanup bb bbc
  have bur: "list_all is_int64 [Int64 [10]]" by simp
  have read: "map_of (bureau example_frames) ''SK_ID_CURR''
       = Some [Float64 [Num 1, Num (- 5 / 2), Num 365243, NaN]]"
    by (simp add: example_frames_def)
  from rdy example_cleanup names read raw curr prev bur show ?thesis by simp
qed

section \<open>Dropped columns and the relationship tree\<close>

lemma drop_in_dropped:
  assumes "drop_in var labels env = Inr env'" and "label \<in> set labels"
  shows "\<exists>df'. map_of env' var = Some df' \<and> map_of df' label = None"
proof -
  from drop_in_map_of [OF assms(1)] obtain df df' where
    d: "drop_columns df labels = Inr df'" and m: "map_of env' = (map_of env)(var \<mapsto> df')"
    by blast
  from map_of_drop_columns [OF d, of label] assms(2) have "map_of df' label = None" by simp
  with m show ?thesis by simp
qed

lemma drop_curr_dropped:
  assumes "drop_curr env = Inr env'"
  shows "list_all (\<lambda>var. \<exists>df. map_of env' var = Some df \<and> map_of df ''SK_ID_CURR'' = None)
           [''cash'', ''credit'', ''installments'']"
proof -
  from assms obtain env1 env2 where
    d1: "drop_in ''installments'' [''SK_ID_CURR''] env = Inr env1" and
    d2: "drop_in ''credit'' [''SK_ID_CURR''] env1 = Inr env2" and
    d3: "drop_in ''cash'' [''SK_ID_CURR''] env2 = Inr env'"
    by (rule drop_curr_parts)
  have i1: "\<exists>df. map_of env1 ''installments'' = Some df \<and> map_of df ''SK_ID_CURR'' = None"
    using drop_in_dropped [OF d1] by simp
  have c2: "\<exists>df. map_of env2 ''credit'' = Some df \<and> map_of df ''SK_ID_CURR'' = None"
    using drop_in_dropped [OF d2] by simp
  have k3: "\<exists>df. map_of env' ''cash'' = Some df \<and> map_of df ''SK_ID_CURR'' = None"
    using drop_in_dropped [OF d3] by simp
  have "map_of env2 ''installments'' = map_of env1 ''installments''"
    by (rule drop_in_other [OF d2]) simp
  moreover have "map_of env' ''installments'' = map_of env2 ''installments''"
    by (rule drop_in_other [OF d3]) simp
  ultimately have i3: "\<exists>df. map_of env' ''installments'' = Some df \<and> map_of df ''SK_ID_CURR'' = None"
    using i1 by simp
  have "map_of env' ''credit'' = map_of env2 ''credit''"
    by (rule drop_in_other [OF d3]) simp
  with c2 have c3: "\<exists>df. map_of env' ''credit'' = Some df \<and> map_of df ''SK_ID_CURR'' = None"
    by simp
  from k3 c3 i3 show ?thesis by simp
qed

lemma map_of_None_columns: "map_of df name = None \<longleftrightarrow> name \<notin> set (columns df)"
  by (simp add: columns_def map_of_eq_None_iff)


text \<open>
  Claim C10. When the cleanup succeeds, the frames bound to \<^verbatim>\<open>cash\<close>, \<^verbatim>\<open>credit\<close>
  and \<^verbatim>\<open>installments\<close>, which are the frames registered under these names, have no
  column SK_ID_CURR. The six declared relationships are app to bureau, bureau to
  bureau_balance, app to previous, and previous to cash, installments and credit: no
  entity is the child of two relationships, and the relationships form a tree over the
  seven registered entities with app at the top.
\<close>

theorem relationship_tree:
  assumes "cleanup c r = Inr env"
  shows "list_all (\<lambda>var. \<exists>df. map_of env var = Some df \<and> ''SK_ID_CURR'' \<notin> set (columns df))
           [''cash'', ''credit'', ''installments'']
    \<and> map dataframe_var registrations = map entity_id registrations
    \<and> edges relationships =
         [(''app'', ''bureau''), (''bureau'', ''bureau_balance''), (''app'', ''previous''),
          (''previous'', ''cash''), (''previous'', ''installments''), (''previous'', ''credit'')]
    \<and> distinct (map child_entity relationships)
    \<and> tree_rooted_at relationships (map entity_id registrations) ''app''"
proof -
  from assms obtain env1 where "drop_curr env1 = Inr env"
    by (auto simp: cleanup_def split: sum.splits)
  then have dropped:
    "list_all (\<lambda>var. \<exists>df. map_of env var = Some df \<and> ''SK_ID_CURR'' \<notin> set (columns df))
       [''cash'', ''credit'', ''installments'']"
    using drop_curr_dropped [of env1 env] by (simp add: map_of_None_columns)
  have vars: "map dataframe_var registrations = map entity_id registrations"
    by (simp add: registrations_def)
  have es: "edges relationships =
         [(''app'', ''bureau''), (''bureau'', ''bureau_balance''), (''app'', ''previous''),
          (''previous'', ''cash''), (''previous'', ''installments''), (''previous'', ''credit'')]"
    by (simp add: edges_def relationships_def Relationship_def)
  have children: "distinct (map child_entity relationships)"
    by (simp add: relationships_def Relationship_def)
  have tree: "tree_rooted_at relationships (map entity_id registrations) ''app''"
    by code_simp
  from dropped vars es children tree show ?thesis by simp
qed

theorem relationship_tree_witness:
  "cleanup example_casts (ingest example_frames) = Inr example_cleaned
   \<and> map_of example_cleaned ''cash'' = Some [(''SK_ID_PREV'', [Int64 [5]])]
   \<and> map_of example_cleaned ''credit'' = Some [(''SK_ID_PREV'', [Int64 [365243]])]
   \<and> map_of example_cleaned ''installments'' = Some [(''SK_ID_PREV'', [Int64 [5]])]
   \<and> list_all (\<lambda>var. \<exists>df. map_of example_cleaned var = Some df
                          \<and> ''SK_ID_CURR'' \<notin> set (columns df))
        [''cash'', ''credit'', ''installments'']
   \<and> tree_rooted_at relationships (map entity_id registrations) ''app''"
proof -
  have "map_of example_cleaned ''cash'' = Some [(''SK_ID_PREV'', [Int64 [5]])]"
    and "map_of example_cleaned ''credit'' = Some [(''SK_ID_PREV'', [Int64 [365243]])]"
    and "map_of example_cleaned ''installments'' = Some [(''SK_ID_PREV'', [Int64 [5]])]"
    by (simp_all add: example_cleaned_def)
  with relationship_tree [OF example_cleanup] example_cleanup show ?thesis by simp
qed

section \<open>The client's lifecycle\<close>

lemma removeAll_only: "set xs \<subseteq> {a} \<Longrightarrow> removeAll a xs = []"
  by (induction xs) auto

lemma close_prior_tracked:
  "tracked k \<Longrightarrow> \<not> prior_close_raises f \<Longrightarrow> running (close_prior f k) = []"
  by (cases "client k") (auto simp: tracked_def close_prior_def close_def removeAll_only)

lemma close_prior_fails: "prior_close_raises f \<Longrightarrow> close_prior f k = k"
  by (cases "client k") (simp_all add: close_prior_def close_def)

lemma close_prior_names:
  "client (close_prior f k) = client k" "next_session (close_prior f k) = next_session k"
  by (cases "client k"; simp add: close_prior_def close_def)+

lemma run_cell_tracked:
  "tracked k \<Longrightarrow> \<not> prior_close_raises f \<Longrightarrow> tracked (snd (run_cell f cell k))"
  by (cases cell)
     (auto simp: tracked_def close_prior_def close_def new_client_def Let_def
           split: option.splits)

lemma run_cells_tracked:
  "tracked k \<Longrightarrow> \<not> prior_close_raises f \<Longrightarrow> tracked (snd (run_cells f cells k))"
proof (induction cells arbitrary: k)
  case Nil
  then show ?case by simp
next
  case (Cons cell cells)
  obtain out k' where r: "run_cell f cell k = (out, k')" by (cases "run_cell f cell k")
  with run_cell_tracked [OF Cons.prems, of cell] have t: "tracked k'" by simp
  show ?case
  proof (cases out)
    case Completed
    with r Cons.IH [OF t Cons.prems(2)] show ?thesis by simp
  next
    case (Raised c)
    with r t show ?thesis by simp
  qed
qed

lemma run_all_no_raise:
  assumes "\<forall>cell. \<not> raises f cell"
  shows "fst (run_all f k) = Completed"
  using assms
  by (cases "client (close_prior f k)")
     (simp_all add: run_all_def notebook_def Let_def new_client_def close_def)

lemma run_all_completed:
  assumes "running (close_prior f k) = []" and "fst (run_all f k) = Completed"
  shows "running (snd (run_all f k)) = []"
  using assms
  by (auto simp: run_all_def notebook_def Let_def new_client_def close_def split: if_splits)

lemma run_all_stopped:
  assumes "\<not> raises f Select_Version" "\<not> raises f Primitive_Dict" "\<not> raises f Imports"
    "\<not> raises f Start_Client" and "fst (run_all f k) \<noteq> Completed"
  shows "client (snd (run_all f k)) = Some (next_session k)
    \<and> running (snd (run_all f k)) = next_session k # running (close_prior f k)"
  using assms
  by (auto simp: run_all_def notebook_def Let_def new_client_def close_def close_prior_names
      split: if_splits)

lemma run_all_no_client:
  assumes "\<not> raises f Select_Version" "\<not> raises f Primitive_Dict" "\<not> raises f Imports"
    "raises f Start_Client"
  shows "run_all f k = (Raised Start_Client, close_prior f k)"
  using assms by (simp add: run_all_def notebook_def Let_def)

text \<open>
  Claim C8, as stated, fails: when the synthesis of cell 20 raises in a fresh kernel, the
  run stops there and the session that cell 6 opened is still running.
\<close>

theorem session_left_open_counterexample:
  "fst (run_all (only_raises Run_Dfs) fresh_kernel) = Raised Run_Dfs
   \<and> running (snd (run_all (only_raises Run_Dfs) fresh_kernel)) = [0]"
  by code_simp

text \<open>
  Claim C8, amended. Starting from a kernel in which every running session is the one
  bound to \<^verbatim>\<open>client\<close>: a run in which nothing raises completes, and a run that
  completes leaves no session running, provided the close in its start cell did not
  fail. A run stopped by a raising cell below the start cell leaves the session it
  created running and bound to \<^verbatim>\<open>client\<close>; a run stopped by the creation of the
  client leaves the kernel as the start cell's close left it. The start cell closes the
  session bound to \<^verbatim>\<open>client\<close> before it creates the new one; when that close itself
  raises, the failure is dropped and the earlier session stays as it was, beside the new
  one. Without such a failure every running session is still the one bound to
  \<^verbatim>\<open>client\<close> after the run, so the next run in the same process releases it.
\<close>

theorem session_lifecycle:
  assumes "tracked k"
  shows "((\<forall>cell. \<not> raises f cell) \<longrightarrow> fst (run_all f k) = Completed)
    \<and> (fst (run_all f k) = Completed \<and> \<not> prior_close_raises f
         \<longrightarrow> running (snd (run_all f k)) = [])
    \<and> (\<not> raises f Select_Version \<and> \<not> raises f Primitive_Dict \<and> \<not> raises f Imports
         \<and> \<not> raises f Start_Client \<and> fst (run_all f k) \<noteq> Completed
         \<longrightarrow> client (snd (run_all f k)) = Some (next_session k)
             \<and> running (snd (run_all f k)) = next_session k # running (close_prior f k))
    \<and> (\<not> raises f Select_Version \<and> \<not> raises f Primitive_Dict \<and> \<not> raises f Imports
         \<and> raises f Start_Client
         \<longrightarrow> run_all f k = (Raised Start_Client, close_prior f k))
    \<and> (\<not> raises f Start_Client
         \<longrightarrow> run_cell f Start_Client k = (Completed, new_client (close_prior f k)))
    \<and> (\<not> prior_close_raises f \<longrightarrow> running (close_prior f k) = [])
    \<and> (prior_close_raises f \<longrightarrow> close_prior f k = k)
    \<and> (\<not> prior_close_raises f \<longrightarrow> tracked (snd (run_all f k)))"
proof -
  have tr: "\<not> prior_close_raises f \<longrightarrow> tracked (snd (run_all f k))"
    unfolding run_all_def using assms by (simp add: run_cells_tracked)
  have closed: "\<not> prior_close_raises f \<longrightarrow> running (close_prior f k) = []"
    using assms by (simp add: close_prior_tracked)
  then have finished: "fst (run_all f k) = Completed \<and> \<not> prior_close_raises f
      \<longrightarrow> running (snd (run_all f k)) = []"
    using run_all_completed [of f k] by blast
  from tr closed finished show ?thesis
    using run_all_no_raise [of f k] run_all_stopped [of f k] run_all_no_client [of f k]
      close_prior_fails [of f k]
    by simp
qed

theorem session_lifecycle_witness:
  "tracked fresh_kernel
   \<and> fst (run_all (only_raises Run_Dfs) fresh_kernel) = Raised Run_Dfs
   \<and> client (snd (run_all (only_raises Run_Dfs) fresh_kernel)) = Some 0
   \<and> running (snd (run_all (only_raises Run_Dfs) fresh_kernel)) = [0]
   \<and> tracked (snd (run_all (only_raises Run_Dfs) fresh_kernel))
   \<and> fst (run_all never_raises (snd (run_all (only_raises Run_Dfs) fresh_kernel))) = Completed
   \<and> running (snd (run_all never_raises (snd (run_all (only_raises Run_Dfs) fresh_kernel)))) = []
   \<and> close_prior prior_close_fails (snd (run_all (only_raises Run_Dfs) fresh_kernel))
       = snd (run_all (only_raises Run_Dfs) fresh_kernel)
   \<and> running (snd (run_all prior_close_fails (snd (run_all (only_raises Run_Dfs) fresh_kernel))))
       = [0]"
proof -
  let ?f = "only_raises Run_Dfs"
  let ?k = "snd (run_all ?f fresh_kernel)"
  have t0: "tracked fresh_kernel" by (simp add: tracked_def fresh_kernel_def)
  note first = session_lifecycle [OF t0, of ?f]
  have stopped: "fst (run_all ?f fresh_kernel) = Raised Run_Dfs" by code_simp
  have quiet: "\<not> raises ?f Select_Version" "\<not> raises ?f Primitive_Dict" "\<not> raises ?f Imports"
    "\<not> raises ?f Start_Client" "\<not> prior_close_raises ?f"
    by (simp_all add: only_raises_def)
  have start: "next_session fresh_kernel = 0" "running (close_prior ?f fresh_kernel) = []"
    using first quiet by (simp_all add: fresh_kernel_def)
  from first quiet stopped start
  have left: "client ?k = Some 0" "running ?k = [0]" by simp_all
  from first quiet have t: "tracked ?k" by simp
  note second = session_lifecycle [OF t, of never_raises]
  have n: "\<forall>cell. \<not> raises never_raises cell" "\<not> prior_close_raises never_raises"
    by (simp_all add: never_raises_def)
  from second n have released: "fst (run_all never_raises ?k) = Completed"
    "running (snd (run_all never_raises ?k)) = []"
    by simp_all
  note third = session_lifecycle [OF t, of prior_close_fails]
  have p: "prior_close_raises prior_close_fails" by (simp add: prior_close_fails_def)
  with third have kept: "close_prior prior_close_fails ?k = ?k" by simp
  have leaked: "running (snd (run_all prior_close_fails ?k)) = [0]" by code_simp
  from t0 stopped left t released kept leaked show ?thesis by simp
qed

end
